theory Spec2Isabelle
  imports Main
begin

section \<open>Data model\<close>

text \<open>
  The development embeds \<^verbatim>\<open>src/e2ee/DeviceTracker.ts\<close>: the class
  \<^verbatim>\<open>DeviceTracker\<close> with its two methods \<^verbatim>\<open>flagUsersOutdated\<close> and
  \<^verbatim>\<open>updateUsersDeviceLists\<close>.

  A \<^verbatim>\<open>UserDevice\<close> is the object the directory returns for one device. The code reads
  four of its properties: \<^verbatim>\<open>user_id\<close>, \<^verbatim>\<open>device_id\<close>, \<^verbatim>\<open>keys\<close> (an object
  from key names to key material) and \<^verbatim>\<open>signatures\<close> (read with \<^verbatim>\<open>?.\<close>, so it
  may be undefined). A property lookup that finds nothing is \<open>None\<close> (JavaScript's
  \<^verbatim>\<open>undefined\<close>).
\<close>

record UserDevice =
  user_id :: string
  device_id :: string
  keys :: "string \<rightharpoonup> string"
  signatures :: "(string \<rightharpoonup> (string \<rightharpoonup> string)) option"

text \<open>
  Modelled from the spec: the enum \<^verbatim>\<open>DeviceKeyAlgorithm\<close> of
  \<^verbatim>\<open>models/Crypto.ts\<close> is imported by the source but is not part of it; the spec calls
  its two members the Ed25519 signing key and the Curve25519 identity key. The source
  spells the first member \<^verbatim>\<open>Ed25119\<close>.
\<close>

definition DeviceKeyAlgorithm_Ed25119 :: string where
  "DeviceKeyAlgorithm_Ed25119 = ''ed25519''"

definition DeviceKeyAlgorithm_Curve25519 :: string where
  "DeviceKeyAlgorithm_Curve25519 = ''curve25519''"

text \<open>The template string \<^verbatim>\<open>`${algorithm}:${deviceId}`\<close>.\<close>

definition key_name :: "string \<Rightarrow> string \<Rightarrow> string" where
  "key_name algorithm deviceId = algorithm @ '':'' @ deviceId"

text \<open>
  JavaScript truthiness of a value of type \<^verbatim>\<open>string | undefined\<close>, as tested by
  \<^verbatim>\<open>!x\<close>: \<^verbatim>\<open>undefined\<close> and the empty string are falsy.
\<close>

definition truthy :: "string option \<Rightarrow> bool" where
  "truthy v = (case v of None \<Rightarrow> False | Some s \<Rightarrow> s \<noteq> [])"

text \<open>A value thrown by a collaborator (a rejected promise), with its message.\<close>

datatype error = Error string

text \<open>
  The response of \<^verbatim>\<open>client.getUserDevices\<close>: only its property \<^verbatim>\<open>device_keys\<close> is
  read. It is an object of objects, iterated with \<^verbatim>\<open>Object.keys\<close>; the model keeps
  the entries in iteration order as an association list. An object holds every key
  once, so the theorems about a whole pass assume the user keys distinct.
\<close>

type_synonym device_list = "(string \<times> UserDevice) list"
type_synonym device_keys = "(string \<times> device_list) list"

text \<open>
  The collaborators reached through \<^verbatim>\<open>this.client\<close> that can fail:
  \<^verbatim>\<open>client.getUserDevices\<close> (the directory fetch) and
  \<^verbatim>\<open>client.crypto.verifySignature\<close>. \<open>Inl\<close> is a rejected promise.
\<close>

record client =
  getUserDevices :: "string list \<Rightarrow> error + device_keys"
  verifySignature :: "UserDevice \<Rightarrow> string \<Rightarrow> string \<Rightarrow> error + bool"

text \<open>
  The crypto store is modelled as a table held in the state, whose reads and writes
  succeed: \<^verbatim>\<open>cryptoStore.getUserDevices(userId)\<close> is \<open>store userId\<close> and
  \<^verbatim>\<open>cryptoStore.setUserDevices(userId, validated)\<close> is
  \<open>store(userId := validated)\<close>.
\<close>

type_synonym crypto_store = "string \<Rightarrow> UserDevice list"

text \<open>The five calls of \<^verbatim>\<open>LogService.warn\<close>, with the values each message interpolates.\<close>

datatype warning =
    ServerLying string string string string
  | MissingKeys string string
  | KeyChanged string string
  | MissingSignature string string
  | InvalidSignature string string

text \<open>
  The effects of the tracker in the order they happen: the store's outdated flag being
  written, the directory fetch being called, an entry of \<^verbatim>\<open>deviceListUpdates\<close> being
  assigned, a warning, \<^verbatim>\<open>setUserDevices\<close>, \<^verbatim>\<open>resolve()\<close>, and the rejection of
  the executor's own promise, which nothing holds.
\<close>

datatype event =
    FlaggedOutdated "string list"
  | FetchIssued "string list"
  | Registered string nat
  | Warn warning
  | SetUserDevices string "UserDevice list"
  | Resolved nat
  | UnhandledRejection error

section \<open>Validation of one device (lines 48 to 85)\<close>

datatype verdict = Validated | Ignored warning

text \<open>
  Lines 73 to 85: the lookup \<^verbatim>\<open>device.signatures?.[userId]?.[`ed25519:${deviceId}`]\<close>,
  and the signature check. \<open>ed25519\<close> is the key read at line 54.
\<close>

definition lookup_signature :: "UserDevice \<Rightarrow> string \<Rightarrow> string \<Rightarrow> string option" where
  "lookup_signature device userId deviceId =
     (case signatures device of
        None \<Rightarrow> None
      | Some sigs \<Rightarrow>
          (case sigs userId of
             None \<Rightarrow> None
           | Some by_key \<Rightarrow> by_key (key_name DeviceKeyAlgorithm_Ed25119 deviceId)))"

definition check_signature ::
  "client \<Rightarrow> string \<Rightarrow> string \<Rightarrow> UserDevice \<Rightarrow> string \<Rightarrow> error + verdict" where
  "check_signature c userId deviceId device ed25519 =
     (case lookup_signature device userId deviceId of
        None \<Rightarrow> Inr (Ignored (MissingSignature userId deviceId))
      | Some signature \<Rightarrow>
          if signature = [] then Inr (Ignored (MissingSignature userId deviceId))
          else
            (case verifySignature c device ed25519 signature of
               Inl e \<Rightarrow> Inl e
             | Inr validSignature \<Rightarrow>
                 if \<not> validSignature then Inr (Ignored (InvalidSignature userId deviceId))
                 else Inr Validated))"

text \<open>
  The body of the inner loop. Each \<^verbatim>\<open>continue\<close> is an \<open>Ignored\<close> verdict with the
  warning logged before it; reaching \<^verbatim>\<open>validated.push(device)\<close> is \<open>Validated\<close>;
  an exception of the verifier is \<open>Inl\<close>. Past the test of line 57 \<open>ed25519\<close> is a
  non-empty string, which \<open>the\<close> reads.
\<close>

definition check_device ::
  "client \<Rightarrow> crypto_store \<Rightarrow> string \<Rightarrow> string \<Rightarrow> UserDevice \<Rightarrow> error + verdict" where
  "check_device c store userId deviceId device =
     (if user_id device \<noteq> userId \<or> device_id device \<noteq> deviceId
      then Inr (Ignored (ServerLying userId deviceId (user_id device) (device_id device)))
      else
        (let ed25519 = keys device (key_name DeviceKeyAlgorithm_Ed25119 deviceId);
             curve25519 = keys device (key_name DeviceKeyAlgorithm_Curve25519 deviceId)
         in if \<not> truthy ed25519 \<or> \<not> truthy curve25519
            then Inr (Ignored (MissingKeys userId deviceId))
            else
              (let currentDevices = store userId;
                   existingDevice = find (\<lambda>d. device_id d = deviceId) currentDevices
               in case existingDevice of
                    Some existing \<Rightarrow>
                      if keys existing (key_name DeviceKeyAlgorithm_Ed25119 deviceId) \<noteq> ed25519
                      then Inr (Ignored (KeyChanged userId deviceId))
                      else check_signature c userId deviceId device (the ed25519)
                  | None \<Rightarrow> check_signature c userId deviceId device (the ed25519))))"

section \<open>The two loops (lines 45 to 89)\<close>

text \<open>
  The inner loop over \<^verbatim>\<open>Object.keys(resp.device_keys[userId])\<close>, with the array
  \<^verbatim>\<open>validated\<close> and the warnings logged so far as accumulators. An exception ends
  the loop; the warnings already logged stay logged.
\<close>

fun validate_devices ::
  "client \<Rightarrow> crypto_store \<Rightarrow> string \<Rightarrow> device_list \<Rightarrow> UserDevice list \<Rightarrow> event list
     \<Rightarrow> (error + UserDevice list) \<times> event list" where
  "validate_devices c store userId [] validated log = (Inr validated, log)"
| "validate_devices c store userId ((deviceId, device) # rest) validated log =
     (case check_device c store userId deviceId device of
        Inl e \<Rightarrow> (Inl e, log)
      | Inr (Ignored w) \<Rightarrow> validate_devices c store userId rest validated (log @ [Warn w])
      | Inr Validated \<Rightarrow> validate_devices c store userId rest (validated @ [device]) log)"

text \<open>
  The outer loop over \<^verbatim>\<open>Object.keys(resp.device_keys)\<close>: each user's devices are
  validated against the store as it is at that moment, then the user's stored list is
  replaced. An exception leaves the users already committed as they are.
\<close>

fun process_users ::
  "client \<Rightarrow> crypto_store \<Rightarrow> device_keys \<Rightarrow> event list
     \<Rightarrow> (error + unit) \<times> crypto_store \<times> event list" where
  "process_users c store [] log = (Inr (), store, log)"
| "process_users c store ((userId, devices) # rest) log =
     (case validate_devices c store userId devices [] log of
        (Inl e, log') \<Rightarrow> (Inl e, store, log')
      | (Inr validated, log') \<Rightarrow>
          process_users c (store(userId := validated)) rest
            (log' @ [SetUserDevices userId validated]))"

section \<open>The tracker, its promises and the two methods\<close>

text \<open>
  A promise is pending, fulfilled or rejected. The tracker's state is the registry
  \<^verbatim>\<open>deviceListUpdates\<close> (user id to promise), the promises it has created, the
  crypto store (the device lists and the outdated flags) and the effects so far.
\<close>

datatype promise_state = Pending | Fulfilled | Rejected error

record tracker =
  deviceListUpdates :: "string \<rightharpoonup> nat"
  promises :: "nat \<Rightarrow> promise_state"
  next_promise :: nat
  cryptoStore :: crypto_store
  outdated :: "string set"
  trace :: "event list"

text \<open>
  How an \<^verbatim>\<open>await\<close> ends. The model runs one call at a time until nothing more can
  happen: every earlier call has gone as far as it ever will, so a promise that is
  pending then stays pending, and awaiting it never resumes (\<open>Suspended\<close>).
\<close>

datatype outcome = Returned | Thrown error | Suspended

text \<open>Line 38: \<^verbatim>\<open>userIds.map(u => this.deviceListUpdates[u]).filter(p => !!p)\<close>.\<close>

definition existingPromises :: "tracker \<Rightarrow> string list \<Rightarrow> nat list" where
  "existingPromises t userIds = List.map_filter (deviceListUpdates t) userIds"

text \<open>
  Line 40: \<^verbatim>\<open>await Promise.all(existingPromises)\<close>. It throws when a promise of the
  list is rejected, resumes when all are fulfilled, and stays suspended otherwise.
\<close>

definition await_all :: "tracker \<Rightarrow> nat list \<Rightarrow> outcome" where
  "await_all t ps =
     (case List.map_filter (\<lambda>p. case promises t p of Rejected e \<Rightarrow> Some e | _ \<Rightarrow> None) ps of
        e # _ \<Rightarrow> Thrown e
      | [] \<Rightarrow> if list_all (\<lambda>p. promises t p = Fulfilled) ps then Returned else Suspended)"

text \<open>
  Lines 43 and 92, the synchronous part. \<^verbatim>\<open>new Promise(executor)\<close> runs the executor
  at once, up to its first \<^verbatim>\<open>await\<close>: the operand of that \<^verbatim>\<open>await\<close>, the call
  \<^verbatim>\<open>this.client.getUserDevices(userIds)\<close>, is evaluated, and the executor suspends.
  Only then does the constructor return the promise, which line 92 assigns to every
  requested user id.
\<close>

definition start_pass :: "tracker \<Rightarrow> string list \<Rightarrow> tracker \<times> nat" where
  "start_pass t userIds =
     (let p = next_promise t;
          t1 = t\<lparr>promises := (promises t)(p := Pending),
                 next_promise := Suc p,
                 trace := trace t @ [FetchIssued userIds]\<rparr>;
          t2 = t1\<lparr>deviceListUpdates := fold (\<lambda>u m. m(u \<mapsto> p)) userIds (deviceListUpdates t1),
                  trace := trace t1 @ map (\<lambda>u. Registered u p) userIds\<rparr>
      in (t2, p))"

text \<open>
  Lines 44 to 90, once the fetch has answered. The executor is an \<^verbatim>\<open>async\<close> function
  that is only given \<^verbatim>\<open>resolve\<close>: when the fetch or the verifier throws, the promise
  the executor itself returns is rejected, nothing holds that promise, and
  \<^verbatim>\<open>promise\<close> is never settled.
\<close>

definition run_executor :: "client \<Rightarrow> tracker \<Rightarrow> nat \<Rightarrow> string list \<Rightarrow> tracker" where
  "run_executor c t p userIds =
     (case getUserDevices c userIds of
        Inl e \<Rightarrow> t\<lparr>trace := trace t @ [UnhandledRejection e]\<rparr>
      | Inr resp \<Rightarrow>
          (case process_users c (cryptoStore t) resp [] of
             (Inl e, store, log) \<Rightarrow>
               t\<lparr>cryptoStore := store, trace := trace t @ log @ [UnhandledRejection e]\<rparr>
           | (Inr u, store, log) \<Rightarrow>
               t\<lparr>cryptoStore := store, trace := trace t @ log @ [Resolved p],
                 promises := (promises t)(p := Fulfilled)\<rparr>))"

text \<open>Line 93: \<^verbatim>\<open>await promise\<close>.\<close>

definition await_promise :: "tracker \<Rightarrow> nat \<Rightarrow> outcome" where
  "await_promise t p =
     (case promises t p of
        Pending \<Rightarrow> Suspended
      | Fulfilled \<Rightarrow> Returned
      | Rejected e \<Rightarrow> Thrown e)"

text \<open>Lines 43 to 93: the pass that follows the wait.\<close>

definition run_pass :: "client \<Rightarrow> tracker \<Rightarrow> string list \<Rightarrow> tracker \<times> outcome" where
  "run_pass c t userIds =
     (case start_pass t userIds of
        (t1, p) \<Rightarrow> (let t2 = run_executor c t1 p userIds in (t2, await_promise t2 p)))"

definition updateUsersDeviceLists :: "client \<Rightarrow> tracker \<Rightarrow> string list \<Rightarrow> tracker \<times> outcome" where
  "updateUsersDeviceLists c t userIds =
     (let existing = existingPromises t userIds
      in if length existing > 0
         then (case await_all t existing of
                 Returned \<Rightarrow> run_pass c t userIds
               | Thrown e \<Rightarrow> (t, Thrown e)
               | Suspended \<Rightarrow> (t, Suspended))
         else run_pass c t userIds)"

text \<open>A tracker as the constructor leaves it, over a given store.\<close>

definition new_tracker :: "crypto_store \<Rightarrow> tracker" where
  "new_tracker store =
     \<lparr>deviceListUpdates = Map.empty, promises = (\<lambda>_. Pending), next_promise = 0,
      cryptoStore = store, outdated = {}, trace = []\<rparr>"


section \<open>Calls that overlap\<close>

text \<open>
  Both methods are \<^verbatim>\<open>async\<close>: a call runs until an \<^verbatim>\<open>await\<close>, and other calls run
  while it waits. \<open>updateUsersDeviceLists\<close> above is one call run alone to its end; here
  a call is resumed one step at a time, and the steps of several calls can be put in
  any order.

  A step is what a call does to the state it shares with the other calls (the registry,
  the promises, the store) between two awaits, with the work on its own variables
  around it. The places where a call can be found waiting:
  \<^item> \<open>AtWait ps\<close>: line 40, for the promises \<open>ps\<close>;
  \<^item> \<open>AtFetch p\<close>: line 44, the fetch called and the promise \<open>p\<close> registered;
  \<^item> \<open>AtDevice p rest userId devices validated\<close>: in the loops, with the devices of
    \<open>userId\<close> still to check, the array \<^verbatim>\<open>validated\<close> so far and the users still to
    come. The next step checks one device, reading the store as it is then (line 62);
    with no device left it is the write of line 88;
  \<^item> \<open>AtResolve p\<close>: past the last write, before \<^verbatim>\<open>resolve()\<close>;
  \<^item> \<open>AtFlagged resync\<close>: \<^verbatim>\<open>flagUsersOutdated\<close> at line 21, the flag written;
  \<^item> \<open>Ended out\<close>: the call will not run again: it has returned, it has thrown, or
    (\<open>Suspended\<close>) it waits for a promise that nothing can settle any more.
  The verifier's answer depends on nothing shared, so the await of line 79 is not a
  place of its own: the check of a device is one step, made of the read of line 62
  and what follows from it.
\<close>

datatype position =
    AtWait "nat list"
  | AtFetch nat
  | AtDevice nat device_keys string device_list "UserDevice list"
  | AtResolve nat
  | AtFlagged bool
  | Ended outcome

record call =
  call_client :: client
  call_userIds :: "string list"
  pos :: position

text \<open>
  Lines 34 to 44 and 92: a call of \<^verbatim>\<open>updateUsersDeviceLists\<close> up to its first await.
\<close>

definition call_updateUsersDeviceLists :: "client \<Rightarrow> tracker \<Rightarrow> string list \<Rightarrow> tracker \<times> call" where
  "call_updateUsersDeviceLists c t userIds =
     (let existing = existingPromises t userIds
      in if length existing > 0
         then (t, \<lparr>call_client = c, call_userIds = userIds, pos = AtWait existing\<rparr>)
         else (case start_pass t userIds of
                 (t', p) \<Rightarrow> (t', \<lparr>call_client = c, call_userIds = userIds, pos = AtFetch p\<rparr>)))"

text \<open>
  Lines 20 and 21: a call of \<^verbatim>\<open>flagUsersOutdated\<close> up to its await.
  \<open>store_flag\<close> is what \<^verbatim>\<open>cryptoStore.flagUsersOutdated\<close> answers: when it rejects,
  the call throws the store's error and nothing is flagged.
\<close>

definition call_flagUsersOutdated ::
  "client \<Rightarrow> (string list \<Rightarrow> error + unit) \<Rightarrow> tracker \<Rightarrow> string list \<Rightarrow> bool
     \<Rightarrow> tracker \<times> call" where
  "call_flagUsersOutdated c store_flag t userIds resync =
     (case store_flag userIds of
        Inl e \<Rightarrow> (t, \<lparr>call_client = c, call_userIds = userIds, pos = Ended (Thrown e)\<rparr>)
      | Inr u \<Rightarrow>
          (t\<lparr>outdated := outdated t \<union> set userIds,
             trace := trace t @ [FlaggedOutdated userIds]\<rparr>,
           \<lparr>call_client = c, call_userIds = userIds, pos = AtFlagged resync\<rparr>))"

text \<open>The start of the loop of line 45, or its next round.\<close>

definition enter_loop :: "nat \<Rightarrow> device_keys \<Rightarrow> position" where
  "enter_loop p resp =
     (case resp of
        [] \<Rightarrow> AtResolve p
      | (userId, devices) # rest \<Rightarrow> AtDevice p rest userId devices [])"

text \<open>
  One step of a call: the new state, where the call waits next, and the call it has
  started (line 25). A call that waits for promises not all settled stays where it is.
\<close>

fun resume_at ::
  "client \<Rightarrow> string list \<Rightarrow> tracker \<Rightarrow> position \<Rightarrow> tracker \<times> position \<times> call list" where
  "resume_at c userIds t (AtWait ps) =
     (case await_all t ps of
        Returned \<Rightarrow> (case start_pass t userIds of (t', p) \<Rightarrow> (t', AtFetch p, []))
      | Thrown e \<Rightarrow> (t, Ended (Thrown e), [])
      | Suspended \<Rightarrow> (t, AtWait ps, []))"
| "resume_at c userIds t (AtFetch p) =
     (case getUserDevices c userIds of
        Inl e \<Rightarrow> (t\<lparr>trace := trace t @ [UnhandledRejection e]\<rparr>, Ended Suspended, [])
      | Inr resp \<Rightarrow> (t, enter_loop p resp, []))"
| "resume_at c userIds t (AtDevice p rest userId [] validated) =
     (t\<lparr>cryptoStore := (cryptoStore t)(userId := validated),
        trace := trace t @ [SetUserDevices userId validated]\<rparr>,
      enter_loop p rest, [])"
| "resume_at c userIds t (AtDevice p rest userId ((deviceId, device) # devices) validated) =
     (case check_device c (cryptoStore t) userId deviceId device of
        Inl e \<Rightarrow> (t\<lparr>trace := trace t @ [UnhandledRejection e]\<rparr>, Ended Suspended, [])
      | Inr (Ignored w) \<Rightarrow>
          (t\<lparr>trace := trace t @ [Warn w]\<rparr>, AtDevice p rest userId devices validated, [])
      | Inr Validated \<Rightarrow> (t, AtDevice p rest userId devices (validated @ [device]), []))"
| "resume_at c userIds t (AtResolve p) =
     (t\<lparr>promises := (promises t)(p := Fulfilled), trace := trace t @ [Resolved p]\<rparr>,
      Ended Returned, [])"
| "resume_at c userIds t (AtFlagged resync) =
     (if resync
      then (case call_updateUsersDeviceLists c t userIds of (t', k) \<Rightarrow> (t', Ended Returned, [k]))
      else (t, Ended Returned, []))"
| "resume_at c userIds t (Ended out) = (t, Ended out, [])"

text \<open>
  What can happen next to a tracker and the calls in flight: a new call of either
  method, or one more step of the call number \<open>i\<close>.
\<close>

datatype action =
    Call client "string list"
  | Flag client "string list \<Rightarrow> error + unit" "string list" bool
  | Resume nat

fun perform :: "action \<Rightarrow> tracker \<times> call list \<Rightarrow> tracker \<times> call list" where
  "perform (Call c userIds) (t, calls) =
     (case call_updateUsersDeviceLists c t userIds of (t', k) \<Rightarrow> (t', calls @ [k]))"
| "perform (Flag c store_flag userIds resync) (t, calls) =
     (case call_flagUsersOutdated c store_flag t userIds resync of (t', k) \<Rightarrow> (t', calls @ [k]))"
| "perform (Resume i) (t, calls) =
     (if i < length calls
      then (case resume_at (call_client (calls ! i)) (call_userIds (calls ! i)) t (pos (calls ! i)) of
              (t', pos', started) \<Rightarrow> (t', calls[i := (calls ! i)\<lparr>pos := pos'\<rparr>] @ started))
      else (t, calls))"

definition run :: "action list \<Rightarrow> tracker \<times> call list \<Rightarrow> tracker \<times> call list" where
  "run acts cfg = fold perform acts cfg"

text \<open>
  A single call in flight, and the outcome a place stands for once the call makes no
  more progress: the outcome it ended with, and \<open>Suspended\<close> while it waits. The
  lemma \<open>solo_call\<close> below shows that \<open>updateUsersDeviceLists\<close> is what these steps
  come to when one call is resumed alone until nothing changes.
\<close>

definition solo :: "client \<Rightarrow> string list \<Rightarrow> position \<Rightarrow> call list" where
  "solo c userIds q = [\<lparr>call_client = c, call_userIds = userIds, pos = q\<rparr>]"

definition outcome_at :: "position \<Rightarrow> outcome" where
  "outcome_at q = (case q of Ended out \<Rightarrow> out | _ \<Rightarrow> Suspended)"

text \<open>
  The effects made between two states of the tracker, the second being reached from
  the first: the entries that the trace has gained.
\<close>

definition new_events :: "tracker \<Rightarrow> tracker \<Rightarrow> event list" where
  "new_events t t' = drop (length (trace t)) (trace t')"

text \<open>
  What a call holds in its array \<^verbatim>\<open>validated\<close>, and the step that puts a device
  there: \<open>validating a cfg userId device\<close> says that the action \<open>a\<close>, taken in the
  configuration \<open>cfg\<close>, is the check of \<open>device\<close> for \<open>userId\<close> by a call in flight,
  and that the check, made against the store as it is in \<open>cfg\<close>, validates it.
\<close>

definition in_hand :: "call \<Rightarrow> (string \<times> UserDevice list) option" where
  "in_hand k = (case pos k of AtDevice p rest u ds vs \<Rightarrow> Some (u, vs) | _ \<Rightarrow> None)"

definition validating :: "action \<Rightarrow> tracker \<times> call list \<Rightarrow> string \<Rightarrow> UserDevice \<Rightarrow> bool" where
  "validating a cfg userId device =
     (case a of
        Resume i \<Rightarrow>
          i < length (snd cfg) \<and>
          (case pos (snd cfg ! i) of
             AtDevice p rest u ((d, dev) # ds) vs \<Rightarrow>
               u = userId \<and> dev = device \<and>
               check_device (call_client (snd cfg ! i)) (cryptoStore (fst cfg)) u d dev
                 = Inr Validated
           | _ \<Rightarrow> False)
      | _ \<Rightarrow> False)"

text \<open>
  The pin of line 64, as a property of a stored list and a device: the list holds no
  device of the same id, or the first it holds has the same Ed25519 key.
\<close>

definition pinned_against :: "UserDevice list \<Rightarrow> UserDevice \<Rightarrow> bool" where
  "pinned_against stored device =
     (case find (\<lambda>x. device_id x = device_id device) stored of
        None \<Rightarrow> True
      | Some existing \<Rightarrow>
          keys existing (key_name DeviceKeyAlgorithm_Ed25119 (device_id device))
            = keys device (key_name DeviceKeyAlgorithm_Ed25119 (device_id device)))"

section \<open>What a pass validates\<close>

text \<open>
  The entries of one user's device object that pass every check of the inner loop
  against a given store. This is the statement's side of the theorems below: the loops
  above never mention it.
\<close>

definition validated_claims ::
  "client \<Rightarrow> crypto_store \<Rightarrow> string \<Rightarrow> device_list \<Rightarrow> device_list" where
  "validated_claims c store userId devices =
     filter (\<lambda>(deviceId, device). check_device c store userId deviceId device = Inr Validated)
       devices"

section \<open>Concrete users, devices and collaborators\<close>

text \<open>
  A small world to run the model in. Signatures are a toy: the signature of a device
  under the key \<open>k\<close> is the string \<open>sig:k\<close>, and the verifier accepts exactly that.
\<close>

definition alice :: string where
  "alice = ''@alice:example.org''"

definition bob :: string where
  "bob = ''@bob:example.org''"

definition signed_device :: "string \<Rightarrow> string \<Rightarrow> string \<Rightarrow> string \<Rightarrow> UserDevice" where
  "signed_device u d ed cv =
     \<lparr>user_id = u, device_id = d,
      keys = [key_name DeviceKeyAlgorithm_Ed25119 d \<mapsto> ed,
              key_name DeviceKeyAlgorithm_Curve25519 d \<mapsto> cv],
      signatures = Some [u \<mapsto> [key_name DeviceKeyAlgorithm_Ed25119 d \<mapsto> ''sig:'' @ ed]]\<rparr>"

definition toy_verify :: "UserDevice \<Rightarrow> string \<Rightarrow> string \<Rightarrow> error + bool" where
  "toy_verify device k s = Inr (s = ''sig:'' @ k)"

definition directory :: "device_keys \<Rightarrow> client" where
  "directory resp = \<lparr>getUserDevices = (\<lambda>_. Inr resp), verifySignature = toy_verify\<rparr>"

definition offline :: client where
  "offline = \<lparr>getUserDevices = (\<lambda>_. Inl (Error ''timeout'')), verifySignature = toy_verify\<rparr>"

definition ed_of :: "string \<Rightarrow> UserDevice \<Rightarrow> string option" where
  "ed_of d device = keys device (key_name DeviceKeyAlgorithm_Ed25119 d)"

text \<open>Alice's device D1 with the keys E1 and C1, and a store that already trusts it.\<close>

definition d1_e1 :: UserDevice where
  "d1_e1 = signed_device alice ''D1'' ''E1'' ''C1''"

definition d1_e2 :: UserDevice where
  "d1_e2 = signed_device alice ''D1'' ''E2'' ''C1''"

definition d2_e3 :: UserDevice where
  "d2_e3 = signed_device alice ''D2'' ''E3'' ''C3''"

definition trusting_d1 :: tracker where
  "trusting_d1 = new_tracker ((\<lambda>_. [])(alice := [d1_e1]))"

definition d1_no_curve :: UserDevice where
  "d1_no_curve = (signed_device alice ''D1'' ''E1'' ''C1'')
     \<lparr>keys := [key_name DeviceKeyAlgorithm_Ed25119 ''D1'' \<mapsto> ''E1'']\<rparr>"

definition b1 :: UserDevice where
  "b1 = signed_device bob ''B1'' ''E9'' ''C9''"

definition trusting_both :: tracker where
  "trusting_both = new_tracker ((\<lambda>_. [])(alice := [d1_e1], bob := [b1]))"

text \<open>
  Three passes in a row over an empty store: the directory first returns D1 with the
  key E1, then twice D1 with the key E2, validly signed each time.
\<close>

definition first_pass :: tracker where
  "first_pass = fst (updateUsersDeviceLists (directory [(alice, [(''D1'', d1_e1)])])
     (new_tracker (\<lambda>_. [])) [alice])"

definition second_pass :: tracker where
  "second_pass = fst (updateUsersDeviceLists (directory [(alice, [(''D1'', d1_e2)])])
     first_pass [alice])"

definition third_pass :: tracker where
  "third_pass = fst (updateUsersDeviceLists (directory [(alice, [(''D1'', d1_e2)])])
     second_pass [alice])"

text \<open>The state a pass over Alice leaves when the directory cannot be reached.\<close>

definition after_failed_pass :: tracker where
  "after_failed_pass = fst (updateUsersDeviceLists offline trusting_d1 [alice])"

text \<open>
  A directory whose verifier throws on the device with the id \<open>bad\<close> (a signature it
  cannot decode, say) and is the toy verifier otherwise.
\<close>

definition brittle_directory :: "device_keys \<Rightarrow> string \<Rightarrow> client" where
  "brittle_directory resp bad =
     \<lparr>getUserDevices = (\<lambda>_. Inr resp),
      verifySignature = (\<lambda>device k s. if device_id device = bad
                                       then Inl (Error ''malformed signature'')
                                       else toy_verify device k s)\<rparr>"

text \<open>
  Three calls for Alice that overlap. The first runs its pass to the end (D1 with E1)
  while the two others wait for it; then both get past their wait, and each runs a pass
  of its own (D1 with E2), the second call first.
\<close>

definition overlap_acts :: "action list" where
  "overlap_acts =
     [Call (directory [(alice, [(''D1'', d1_e1)])]) [alice],
      Call (directory [(alice, [(''D1'', d1_e2)])]) [alice],
      Call (directory [(alice, [(''D1'', d1_e2)])]) [alice],
      Resume 0, Resume 0, Resume 0, Resume 0,
      Resume 1, Resume 2,
      Resume 1, Resume 1, Resume 1, Resume 1,
      Resume 2, Resume 2, Resume 2, Resume 2]"

section \<open>The loops, step by step\<close>

lemmas model_defs =
  updateUsersDeviceLists_def run_pass_def start_pass_def run_executor_def await_promise_def
  await_all_def existingPromises_def new_tracker_def check_device_def
  check_signature_def lookup_signature_def key_name_def truthy_def validated_claims_def
  DeviceKeyAlgorithm_Ed25119_def DeviceKeyAlgorithm_Curve25519_def List.map_filter_def

lemmas world_defs =
  alice_def bob_def signed_device_def toy_verify_def directory_def offline_def ed_of_def
  d1_e1_def d1_e2_def d2_e3_def trusting_d1_def d1_no_curve_def b1_def trusting_both_def

lemmas pass_defs = first_pass_def second_pass_def third_pass_def

lemmas step_defs =
  run_def call_updateUsersDeviceLists_def call_flagUsersOutdated_def enter_loop_def
  new_events_def

lemmas fine_defs = overlap_acts_def step_defs brittle_directory_def

lemma check_device_store_cong:
  "store userId = store' userId \<Longrightarrow>
   check_device c store userId d dev = check_device c store' userId d dev"
  by (simp add: check_device_def Let_def)

lemma validate_devices_store_cong:
  "store userId = store' userId \<Longrightarrow>
   validate_devices c store userId devs acc log = validate_devices c store' userId devs acc log"
proof (induction devs arbitrary: acc log)
  case Nil
  show ?case by simp
next
  case (Cons x devs)
  obtain d dev where x: "x = (d, dev)" by (cases x)
  have eq: "check_device c store userId d dev = check_device c store' userId d dev"
    using Cons.prems by (rule check_device_store_cong)
  show ?case
    using Cons.IH [OF Cons.prems] by (simp add: x eq split: sum.splits verdict.splits)
qed

lemma validate_devices_validated:
  "validate_devices c store u devs acc log = (Inr vs, log') \<Longrightarrow>
   vs = acc @ map snd (validated_claims c store u devs)"
proof (induction devs arbitrary: acc log)
  case Nil
  then show ?case by (simp add: validated_claims_def)
next
  case (Cons x devs)
  obtain d dev where x: "x = (d, dev)" by (cases x)
  show ?case
  proof (cases "check_device c store u d dev")
    case (Inl e)
    with Cons.prems show ?thesis by (simp add: x)
  next
    case (Inr v)
    show ?thesis
    proof (cases v)
      case Validated
      with Inr Cons.prems have "validate_devices c store u devs (acc @ [dev]) log = (Inr vs, log')"
        by (simp add: x)
      from Cons.IH [OF this] show ?thesis
        using Inr Validated by (simp add: x validated_claims_def)
    next
      case (Ignored w)
      with Inr Cons.prems have "validate_devices c store u devs acc (log @ [Warn w]) = (Inr vs, log')"
        by (simp add: x)
      from Cons.IH [OF this] show ?thesis
        using Inr Ignored by (simp add: x validated_claims_def)
    qed
  qed
qed

lemma validate_devices_log:
  "validate_devices c store u devs acc log = (r, log') \<Longrightarrow>
   \<exists>ws. log' = log @ map Warn ws"
proof (induction devs arbitrary: acc log)
  case Nil
  then show ?case by simp
next
  case (Cons x devs)
  obtain d dev where x: "x = (d, dev)" by (cases x)
  show ?case
  proof (cases "check_device c store u d dev")
    case (Inl e)
    with Cons.prems show ?thesis by (simp add: x)
  next
    case (Inr v)
    show ?thesis
    proof (cases v)
      case Validated
      with Inr Cons.prems have "validate_devices c store u devs (acc @ [dev]) log = (r, log')"
        by (simp add: x)
      from Cons.IH [OF this] show ?thesis .
    next
      case (Ignored w)
      with Inr Cons.prems have "validate_devices c store u devs acc (log @ [Warn w]) = (r, log')"
        by (simp add: x)
      from Cons.IH [OF this] obtain ws where "log' = (log @ [Warn w]) @ map Warn ws" by blast
      then have "log' = log @ map Warn (w # ws)" by simp
      then show ?thesis by blast
    qed
  qed
qed

lemma validate_devices_warned:
  "validate_devices c store u devs acc log = (Inr vs, log') \<Longrightarrow>
   (d, dev) \<in> set devs \<Longrightarrow> check_device c store u d dev = Inr (Ignored w) \<Longrightarrow>
   Warn w \<in> set log'"
proof (induction devs arbitrary: acc log)
  case Nil
  then show ?case by simp
next
  case (Cons x devs)
  obtain d' dev' where x: "x = (d', dev')" by (cases x)
  show ?case
  proof (cases "check_device c store u d' dev'")
    case (Inl e)
    with Cons.prems show ?thesis by (simp add: x)
  next
    case (Inr v)
    show ?thesis
    proof (cases v)
      case Validated
      with Inr Cons.prems have run: "validate_devices c store u devs (acc @ [dev']) log = (Inr vs, log')"
        by (simp add: x)
      from Cons.prems Inr Validated x have "(d, dev) \<in> set devs" by auto
      from Cons.IH [OF run this Cons.prems(3)] show ?thesis .
    next
      case (Ignored w')
      with Inr Cons.prems have run: "validate_devices c store u devs acc (log @ [Warn w']) = (Inr vs, log')"
        by (simp add: x)
      show ?thesis
      proof (cases "(d, dev) \<in> set devs")
        case True
        from Cons.IH [OF run True Cons.prems(3)] show ?thesis .
      next
        case False
        with Cons.prems x have "d' = d" "dev' = dev" by auto
        with Inr Ignored Cons.prems(3) have "w' = w" by simp
        moreover from validate_devices_log [OF run] obtain ws where "log' = (log @ [Warn w']) @ map Warn ws"
          by blast
        ultimately show ?thesis by simp
      qed
    qed
  qed
qed


lemma process_users_frame:
  "process_users c store resp log = (r, store', log') \<Longrightarrow> u \<notin> fst ` set resp \<Longrightarrow>
   store' u = store u"
proof (induction resp arbitrary: store log)
  case Nil
  then show ?case by simp
next
  case (Cons x resp)
  obtain u' devs where x: "x = (u', devs)" by (cases x)
  from Cons.prems(2) have ne: "u' \<noteq> u" and rest: "u \<notin> fst ` set resp" by (auto simp: x)
  obtain r1 log1 where v: "validate_devices c store u' devs [] log = (r1, log1)"
    by (cases "validate_devices c store u' devs [] log")
  show ?case
  proof (cases r1)
    case (Inl e)
    with Cons.prems(1) v show ?thesis by (simp add: x)
  next
    case (Inr vs)
    with Cons.prems(1) v
    have "process_users c (store(u' := vs)) resp (log1 @ [SetUserDevices u' vs]) = (r, store', log')"
      by (simp add: x)
    from Cons.IH [OF this rest] show ?thesis using ne by simp
  qed
qed


lemma process_users_log:
  "process_users c store resp log = (r, store', log') \<Longrightarrow> \<exists>evs. log' = log @ evs"
proof (induction resp arbitrary: store log)
  case Nil
  then show ?case by simp
next
  case (Cons x resp)
  obtain u' devs' where x: "x = (u', devs')" by (cases x)
  obtain r1 log1 where v: "validate_devices c store u' devs' [] log = (r1, log1)"
    by (cases "validate_devices c store u' devs' [] log")
  from validate_devices_log [OF v] obtain ws where log1: "log1 = log @ map Warn ws" by blast
  show ?case
  proof (cases r1)
    case (Inl e)
    with Cons.prems(1) v have "log' = log1" by (simp add: x)
    with log1 show ?thesis by blast
  next
    case (Inr vs)
    with Cons.prems(1) v
    have run: "process_users c (store(u' := vs)) resp (log1 @ [SetUserDevices u' vs]) = (r, store', log')"
      by (simp add: x)
    from Cons.IH [OF run] obtain evs where "log' = (log1 @ [SetUserDevices u' vs]) @ evs" by blast
    with log1 have "log' = log @ (map Warn ws @ [SetUserDevices u' vs] @ evs)" by simp
    then show ?thesis by blast
  qed
qed

lemma process_users_warned:
  "process_users c store resp log = (Inr (), store', log') \<Longrightarrow> distinct (map fst resp) \<Longrightarrow>
   (u, devs) \<in> set resp \<Longrightarrow> (d, dev) \<in> set devs \<Longrightarrow>
   check_device c store u d dev = Inr (Ignored w) \<Longrightarrow> Warn w \<in> set log'"
proof (induction resp arbitrary: store log)
  case Nil
  then show ?case by simp
next
  case (Cons x resp)
  obtain u' devs' where x: "x = (u', devs')" by (cases x)
  from Cons.prems(2) have fresh: "u' \<notin> fst ` set resp" and dist: "distinct (map fst resp)"
    by (auto simp: x)
  obtain r1 log1 where v: "validate_devices c store u' devs' [] log = (r1, log1)"
    by (cases "validate_devices c store u' devs' [] log")
  show ?case
  proof (cases r1)
    case (Inl e)
    with Cons.prems(1) v show ?thesis by (simp add: x)
  next
    case (Inr vs)
    with Cons.prems(1) v
    have run: "process_users c (store(u' := vs)) resp (log1 @ [SetUserDevices u' vs]) = (Inr (), store', log')"
      by (simp add: x)
    show ?thesis
    proof (cases "(u, devs) \<in> set resp")
      case True
      then have ne: "u \<noteq> u'" using fresh by force
      have "check_device c (store(u' := vs)) u d dev = Inr (Ignored w)"
        using check_device_store_cong [of "store(u' := vs)" u store c d dev] ne Cons.prems(5) by simp
      from Cons.IH [OF run dist True Cons.prems(4) this] show ?thesis .
    next
      case False
      with Cons.prems(3) have same: "u' = u" "devs' = devs" by (auto simp: x)
      have "Warn w \<in> set log1"
        using validate_devices_warned [of c store u devs "[]" log vs log1 d dev w]
          v Inr same Cons.prems(4,5) by simp
      moreover from process_users_log [OF run] obtain evs where
        "log' = (log1 @ [SetUserDevices u' vs]) @ evs" by blast
      ultimately show ?thesis by simp
    qed
  qed
qed

lemma process_users_writes:
  "process_users c store resp log = (r, store', log') \<Longrightarrow>
   SetUserDevices u vs \<in> set log' \<Longrightarrow> SetUserDevices u vs \<in> set log \<or> u \<in> fst ` set resp"
proof (induction resp arbitrary: store log)
  case Nil
  then show ?case by simp
next
  case (Cons x resp)
  obtain u' devs' where x: "x = (u', devs')" by (cases x)
  obtain r1 log1 where v: "validate_devices c store u' devs' [] log = (r1, log1)"
    by (cases "validate_devices c store u' devs' [] log")
  from validate_devices_log [OF v] obtain ws where log1: "log1 = log @ map Warn ws" by blast
  show ?case
  proof (cases r1)
    case (Inl e)
    with Cons.prems v log1 show ?thesis by (auto simp: x)
  next
    case (Inr vs')
    with Cons.prems(1) v
    have run: "process_users c (store(u' := vs')) resp (log1 @ [SetUserDevices u' vs']) = (r, store', log')"
      by (simp add: x)
    from Cons.IH [OF run Cons.prems(2)] log1 show ?thesis by (auto simp: x)
  qed
qed

text \<open>What a call that returned did.\<close>

lemma start_pass_fields:
  "start_pass t userIds = (t1, p) \<Longrightarrow>
   p = next_promise t \<and> next_promise t1 = Suc p \<and>
   cryptoStore t1 = cryptoStore t \<and> outdated t1 = outdated t \<and>
   promises t1 = (promises t)(p := Pending) \<and>
   deviceListUpdates t1 = fold (\<lambda>u m. m(u \<mapsto> p)) userIds (deviceListUpdates t) \<and>
   trace t1 = trace t @ FetchIssued userIds # map (\<lambda>u. Registered u p) userIds"
  by (auto simp: start_pass_def Let_def)

lemma run_pass_Returned:
  assumes "run_pass c t userIds = (t', Returned)"
  shows "\<exists>resp log. getUserDevices c userIds = Inr resp \<and>
           process_users c (cryptoStore t) resp [] = (Inr (), cryptoStore t', log) \<and>
           trace t' = trace t @ FetchIssued userIds # map (\<lambda>u. Registered u (next_promise t)) userIds
                        @ log @ [Resolved (next_promise t)]"
proof -
  obtain t1 p where sp: "start_pass t userIds = (t1, p)" by (cases "start_pass t userIds")
  note f = start_pass_fields [OF sp]
  from assms sp have t': "t' = run_executor c t1 p userIds"
    and aw: "await_promise (run_executor c t1 p userIds) p = Returned"
    by (auto simp: run_pass_def Let_def)
  show ?thesis
  proof (cases "getUserDevices c userIds")
    case (Inl e)
    with aw f show ?thesis by (simp add: run_executor_def await_promise_def)
  next
    case (Inr resp)
    obtain r store log where pu: "process_users c (cryptoStore t1) resp [] = (r, store, log)"
      by (cases "process_users c (cryptoStore t1) resp []")
    show ?thesis
    proof (cases r)
      case (Inl e)
      with aw f Inr pu show ?thesis by (simp add: run_executor_def await_promise_def)
    next
      case (Inr u)
      with \<open>getUserDevices c userIds = Inr resp\<close> pu t' f show ?thesis
        by (simp add: run_executor_def)
    qed
  qed
qed

lemma update_cases:
  "updateUsersDeviceLists c t userIds = (t', out) \<Longrightarrow>
   (await_all t (existingPromises t userIds) = Returned \<and> run_pass c t userIds = (t', out)) \<or>
   (await_all t (existingPromises t userIds) \<noteq> Returned \<and> t' = t \<and> out \<noteq> Returned \<and>
      existingPromises t userIds \<noteq> [])"
  by (auto simp: updateUsersDeviceLists_def Let_def await_all_def List.map_filter_simps
      split: outcome.splits list.splits if_splits)

lemma update_Returned:
  assumes "updateUsersDeviceLists c t userIds = (t', Returned)"
  shows "\<exists>resp log. getUserDevices c userIds = Inr resp \<and>
           process_users c (cryptoStore t) resp [] = (Inr (), cryptoStore t', log) \<and>
           trace t' = trace t @ FetchIssued userIds # map (\<lambda>u. Registered u (next_promise t)) userIds
                        @ log @ [Resolved (next_promise t)]"
  using update_cases [OF assms] run_pass_Returned [of c t userIds t'] by auto


lemma fold_register:
  "fold (\<lambda>u m. m(u \<mapsto> p)) userIds m u = (if u \<in> set userIds then Some p else m u)"
  by (induction userIds arbitrary: m) auto

lemma run_pass_effects:
  assumes "run_pass c t userIds = (t', out)"
  obtains r log where
    "deviceListUpdates t' = fold (\<lambda>u m. m(u \<mapsto> next_promise t)) userIds (deviceListUpdates t)"
    and "outdated t' = outdated t"
    and "next_promise t' = Suc (next_promise t)"
    and "case getUserDevices c userIds of
           Inl e \<Rightarrow> r = Inl e \<and> log = [] \<and> cryptoStore t' = cryptoStore t
         | Inr resp \<Rightarrow> process_users c (cryptoStore t) resp [] = (r, cryptoStore t', log)"
    and "trace t' = trace t @ FetchIssued userIds # map (\<lambda>u. Registered u (next_promise t)) userIds
           @ log @ [case r of Inl e \<Rightarrow> UnhandledRejection e | Inr u \<Rightarrow> Resolved (next_promise t)]"
    and "promises t' = (promises t)(next_promise t :=
           (case r of Inl e \<Rightarrow> Pending | Inr u \<Rightarrow> Fulfilled))"
    and "out = (case r of Inl e \<Rightarrow> Suspended | Inr u \<Rightarrow> Returned)"
proof -
  obtain t1 p where sp: "start_pass t userIds = (t1, p)" by (cases "start_pass t userIds")
  note f = start_pass_fields [OF sp]
  from assms sp have t': "t' = run_executor c t1 p userIds"
    and out: "out = await_promise (run_executor c t1 p userIds) p"
    by (auto simp: run_pass_def Let_def)
  show ?thesis
  proof (cases "getUserDevices c userIds")
    case (Inl e)
    show ?thesis
      by (rule that [of "Inl e" "[]"])
        (use Inl t' out f in \<open>simp_all add: run_executor_def await_promise_def\<close>)
  next
    case (Inr resp)
    obtain r store log where pu: "process_users c (cryptoStore t1) resp [] = (r, store, log)"
      by (cases "process_users c (cryptoStore t1) resp []")
    show ?thesis
    proof (cases r)
      case (Inl e)
      show ?thesis
        by (rule that [of "Inl e" log])
          (use Inl \<open>getUserDevices c userIds = Inr resp\<close> pu t' out f in
            \<open>simp_all add: run_executor_def await_promise_def\<close>)
    next
      case (Inr u)
      show ?thesis
        by (rule that [of "Inr u" log])
          (use Inr \<open>getUserDevices c userIds = Inr resp\<close> pu t' out f in
            \<open>simp_all add: run_executor_def await_promise_def\<close>)
    qed
  qed
qed

lemma in_validated_claims:
  "(d, dev) \<in> set (validated_claims c store u devs) \<longleftrightarrow>
   (d, dev) \<in> set devs \<and> check_device c store u d dev = Inr Validated"
  by (auto simp: validated_claims_def)

lemma check_device_Validated:
  assumes "check_device c store u d dev = Inr Validated"
  shows "user_id dev = u" and "device_id dev = d"
    and "truthy (keys dev (key_name DeviceKeyAlgorithm_Ed25119 d))"
    and "truthy (keys dev (key_name DeviceKeyAlgorithm_Curve25519 d))"
    and "find (\<lambda>x. device_id x = d) (store u) = Some existing \<Longrightarrow>
         keys existing (key_name DeviceKeyAlgorithm_Ed25119 d)
           = keys dev (key_name DeviceKeyAlgorithm_Ed25119 d)"
  using assms by (auto simp: check_device_def Let_def split: if_splits option.splits)

lemma completed_pass:
  assumes "updateUsersDeviceLists c t userIds = (t', Returned)"
    and "getUserDevices c userIds = Inr resp"
  shows "\<exists>log. process_users c (cryptoStore t) resp [] = (Inr (), cryptoStore t', log) \<and>
           trace t' = trace t @ FetchIssued userIds
             # map (\<lambda>u. Registered u (next_promise t)) userIds @ log @ [Resolved (next_promise t)]"
  using update_Returned [OF assms(1)] assms(2) by auto

lemma update_effects:
  assumes "updateUsersDeviceLists c t userIds = (t', out)"
  shows "(t' = t \<and> out \<noteq> Returned \<and> await_all t (existingPromises t userIds) \<noteq> Returned)
       \<or> (await_all t (existingPromises t userIds) = Returned \<and> run_pass c t userIds = (t', out))"
  using update_cases [OF assms] by blast

lemma existingPromises_member:
  "p \<in> set (existingPromises t userIds) \<longleftrightarrow> (\<exists>u \<in> set userIds. deviceListUpdates t u = Some p)"
  by (force simp: existingPromises_def List.map_filter_def)

lemma update_keeps_flags:
  assumes "updateUsersDeviceLists c t userIds = (t', out)"
  shows "outdated t' = outdated t \<and> (\<exists>new. trace t' = trace t @ new)"
proof -
  from update_effects [OF assms] show ?thesis
  proof
    assume "t' = t \<and> out \<noteq> Returned \<and> await_all t (existingPromises t userIds) \<noteq> Returned"
    then show ?thesis by simp
  next
    assume "await_all t (existingPromises t userIds) = Returned \<and> run_pass c t userIds = (t', out)"
    then have rp: "run_pass c t userIds = (t', out)" by blast
    from rp obtain r :: "error + unit" and log
      where "outdated t' = outdated t"
        and "trace t' = trace t @ FetchIssued userIds
              # map (\<lambda>u. Registered u (next_promise t)) userIds
              @ log @ [case r of Inl e \<Rightarrow> UnhandledRejection e | Inr u \<Rightarrow> Resolved (next_promise t)]"
      by (rule run_pass_effects) blast
    then show ?thesis by blast
  qed
qed

lemma await_all_Suspended:
  assumes "p \<in> set ps" and "promises t p = Pending"
    and "\<forall>q \<in> set ps. \<forall>e. promises t q \<noteq> Rejected e"
  shows "await_all t ps = Suspended"
proof -
  have "List.map_filter (\<lambda>p. case promises t p of Rejected e \<Rightarrow> Some e | _ \<Rightarrow> None) ps = []"
    using assms(3) by (induction ps) (auto simp: List.map_filter_simps split: promise_state.splits)
  moreover have "\<not> list_all (\<lambda>p. promises t p = Fulfilled) ps"
    using assms(1,2) by (force simp: list_all_iff)
  ultimately show ?thesis by (simp add: await_all_def)
qed

text \<open>
  No promise is rejected in a new tracker, and \<^verbatim>\<open>updateUsersDeviceLists\<close> never
  rejects one: the wait of line 40 then never throws, and the call returns or stays
  suspended, but never fails.
\<close>

lemma await_all_Thrown:
  assumes "await_all t ps = Thrown e"
  shows "\<exists>q \<in> set ps. promises t q = Rejected e"
proof -
  let ?rejections = "List.map_filter (\<lambda>p. case promises t p of Rejected e \<Rightarrow> Some e | _ \<Rightarrow> None) ps"
  from assms obtain es where "?rejections = e # es"
    by (auto simp: await_all_def split: list.splits if_splits)
  then have "e \<in> set ?rejections" by simp
  then show ?thesis
    by (auto simp: List.map_filter_def split: promise_state.splits)
qed

lemma update_never_rejects:
  assumes "\<forall>q e. promises t q \<noteq> Rejected e"
    and "updateUsersDeviceLists c t userIds = (t', out)"
  shows "(\<forall>q e. promises t' q \<noteq> Rejected e) \<and> (\<forall>e. out \<noteq> Thrown e)"
proof -
  from update_cases [OF assms(2)] show ?thesis
  proof
    assume blocked: "await_all t (existingPromises t userIds) \<noteq> Returned \<and> t' = t
      \<and> out \<noteq> Returned \<and> existingPromises t userIds \<noteq> []"
    have "out \<noteq> Thrown e" for e
    proof
      assume "out = Thrown e"
      with assms(2) blocked have "await_all t (existingPromises t userIds) = Thrown e"
        by (auto simp: updateUsersDeviceLists_def Let_def split: outcome.splits)
      from await_all_Thrown [OF this] assms(1) show False by blast
    qed
    with blocked assms(1) show ?thesis by blast
  next
    assume "await_all t (existingPromises t userIds) = Returned \<and> run_pass c t userIds = (t', out)"
    then have rp: "run_pass c t userIds = (t', out)" by blast
    from rp obtain r :: "error + unit" and log
      where pr: "promises t' = (promises t)(next_promise t :=
           (case r of Inl e \<Rightarrow> Pending | Inr u \<Rightarrow> Fulfilled))"
        and out: "out = (case r of Inl e \<Rightarrow> Suspended | Inr u \<Rightarrow> Returned)"
      by (rule run_pass_effects) blast
    from pr out assms(1) show ?thesis by (cases r) auto
  qed
qed

lemma new_tracker_never_rejected:
  "promises (new_tracker store) q \<noteq> Rejected e"
  by (simp add: new_tracker_def)

section \<open>Every outcome of one call\<close>

text \<open>
  The facts above describe a pass that completes. These describe every outcome of a
  call: for a user of the response, either nothing was written, or the one write made
  for the user is the list of validated claims, with every warning of the user's devices
  logged before it.
\<close>

lemma new_events_eq:
  "trace t' = trace t @ xs \<Longrightarrow> new_events t t' = xs"
  by (simp add: new_events_def)

lemma new_events_same [simp]: "new_events t t = []"
  by (simp add: new_events_def)

lemma new_events_trans:
  assumes "trace t1 = trace t @ new_events t t1" and "trace t2 = trace t1 @ new_events t1 t2"
  shows "new_events t t2 = new_events t t1 @ new_events t1 t2"
  using assms by (intro new_events_eq) simp

lemma process_users_outcome:
  assumes "process_users c store resp log = (r, store', log')"
    and "distinct (map fst resp)"
    and "(u, devs) \<in> set resp"
  shows "(store' u = store u
          \<and> (\<forall>vs. SetUserDevices u vs \<in> set log' \<longrightarrow> SetUserDevices u vs \<in> set log)
          \<and> r \<noteq> Inr ())
       \<or> (store' u = map snd (validated_claims c store u devs)
          \<and> (\<forall>vs. SetUserDevices u vs \<in> set log'
                \<longrightarrow> SetUserDevices u vs \<in> set log
                    \<or> vs = map snd (validated_claims c store u devs))
          \<and> SetUserDevices u (map snd (validated_claims c store u devs)) \<in> set log'
          \<and> (\<forall>d dev w. (d, dev) \<in> set devs \<and> check_device c store u d dev = Inr (Ignored w)
                \<longrightarrow> Warn w \<in> set log'))"
  using assms
proof (induction resp arbitrary: store log)
  case Nil
  then show ?case by simp
next
  case (Cons x resp)
  obtain u' devs' where x: "x = (u', devs')" by (cases x)
  from Cons.prems(2) have fresh: "u' \<notin> fst ` set resp" and dist: "distinct (map fst resp)"
    by (auto simp: x)
  obtain r1 log1 where v: "validate_devices c store u' devs' [] log = (r1, log1)"
    by (cases "validate_devices c store u' devs' [] log")
  from validate_devices_log [OF v] obtain ws where log1: "log1 = log @ map Warn ws" by blast
  show ?case
  proof (cases r1)
    case (Inl e)
    with Cons.prems(1) v have "r = Inl e" "store' = store" "log' = log1" by (simp_all add: x)
    with log1 show ?thesis by auto
  next
    case (Inr vs)
    let ?store1 = "store(u' := vs)" and ?log1 = "log1 @ [SetUserDevices u' vs]"
    from Inr Cons.prems(1) v
    have run: "process_users c ?store1 resp ?log1 = (r, store', log')"
      by (simp add: x)
    show ?thesis
    proof (cases "(u, devs) \<in> set resp")
      case True
      then have ne: "u \<noteq> u'" using fresh by force
      have same: "check_device c ?store1 u d dev = check_device c store u d dev" for d dev
        using check_device_store_cong [of ?store1 u store] ne by simp
      then have vc: "validated_claims c ?store1 u devs = validated_claims c store u devs"
        by (simp add: validated_claims_def)
      have old: "SetUserDevices u ws' \<in> set ?log1 \<longleftrightarrow> SetUserDevices u ws' \<in> set log" for ws'
        using ne log1 by auto
      from Cons.IH [OF run dist True] show ?thesis
        unfolding vc same old using ne by simp
    next
      case False
      with Cons.prems(3) have eq: "u' = u" "devs' = devs" by (auto simp: x)
      let ?V = "map snd (validated_claims c store u devs)"
      have vs: "vs = ?V"
        using validate_devices_validated [of c store u devs "[]" log vs log1] v Inr eq by simp
      have absent: "u \<notin> fst ` set resp" using fresh eq by simp
      have store': "store' u = ?V"
        using process_users_frame [OF run absent] eq vs by simp
      from process_users_log [OF run] obtain evs where log': "log' = ?log1 @ evs" by blast
      have only: "\<forall>ws'. SetUserDevices u ws' \<in> set log'
                \<longrightarrow> SetUserDevices u ws' \<in> set log \<or> ws' = ?V"
      proof (intro allI impI)
        fix ws' assume "SetUserDevices u ws' \<in> set log'"
        from process_users_writes [OF run this] absent
        have "SetUserDevices u ws' \<in> set ?log1" by simp
        with log1 eq vs show "SetUserDevices u ws' \<in> set log \<or> ws' = ?V" by auto
      qed
      have made: "SetUserDevices u ?V \<in> set log'" using log' eq vs by simp
      have warned: "\<forall>d dev w. (d, dev) \<in> set devs \<and> check_device c store u d dev = Inr (Ignored w)
                \<longrightarrow> Warn w \<in> set log'"
      proof (intro allI impI)
        fix d dev w
        assume h: "(d, dev) \<in> set devs \<and> check_device c store u d dev = Inr (Ignored w)"
        then have "Warn w \<in> set log1"
          using validate_devices_warned [of c store u devs "[]" log vs log1 d dev w] v Inr eq
          by simp
        with log' show "Warn w \<in> set log'" by simp
      qed
      from store' only made warned show ?thesis by (intro disjI2 conjI)
    qed
  qed
qed

text \<open>What a call writes for a user of the response, whatever its outcome.\<close>

lemma update_commits:
  assumes "updateUsersDeviceLists c t userIds = (t', out)"
    and "getUserDevices c userIds = Inr resp"
    and "distinct (map fst resp)"
    and "(u, devs) \<in> set resp"
  shows "(cryptoStore t' u = cryptoStore t u
          \<and> (\<forall>vs. SetUserDevices u vs \<notin> set (new_events t t'))
          \<and> out \<noteq> Returned)
       \<or> (cryptoStore t' u = map snd (validated_claims c (cryptoStore t) u devs)
          \<and> (\<forall>vs. SetUserDevices u vs \<in> set (new_events t t')
                \<longrightarrow> vs = map snd (validated_claims c (cryptoStore t) u devs))
          \<and> SetUserDevices u (map snd (validated_claims c (cryptoStore t) u devs))
               \<in> set (new_events t t')
          \<and> (\<forall>d dev w. (d, dev) \<in> set devs
                  \<and> check_device c (cryptoStore t) u d dev = Inr (Ignored w)
                \<longrightarrow> Warn w \<in> set (new_events t t')))"
proof -
  from update_effects [OF assms(1)] show ?thesis
  proof
    assume "t' = t \<and> out \<noteq> Returned \<and> await_all t (existingPromises t userIds) \<noteq> Returned"
    then show ?thesis by simp
  next
    assume "await_all t (existingPromises t userIds) = Returned \<and> run_pass c t userIds = (t', out)"
    then have rp: "run_pass c t userIds = (t', out)" by blast
    from rp obtain r :: "error + unit" and log
      where eff: "case getUserDevices c userIds of
           Inl e \<Rightarrow> r = Inl e \<and> log = [] \<and> cryptoStore t' = cryptoStore t
         | Inr resp \<Rightarrow> process_users c (cryptoStore t) resp [] = (r, cryptoStore t', log)"
        and tr: "trace t' = trace t @ FetchIssued userIds
              # map (\<lambda>u. Registered u (next_promise t)) userIds
              @ log @ [case r of Inl e \<Rightarrow> UnhandledRejection e | Inr u \<Rightarrow> Resolved (next_promise t)]"
        and out: "out = (case r of Inl e \<Rightarrow> Suspended | Inr u \<Rightarrow> Returned)"
      by (rule run_pass_effects) blast
    from eff assms(2)
    have pu: "process_users c (cryptoStore t) resp [] = (r, cryptoStore t', log)" by simp
    have ev: "new_events t t' = FetchIssued userIds
              # map (\<lambda>u. Registered u (next_promise t)) userIds
              @ log @ [case r of Inl e \<Rightarrow> UnhandledRejection e | Inr u \<Rightarrow> Resolved (next_promise t)]"
      using tr by (intro new_events_eq) simp
    have set_iff: "SetUserDevices u vs \<in> set (new_events t t') \<longleftrightarrow> SetUserDevices u vs \<in> set log"
      for vs
      unfolding ev by (auto split: sum.splits)
    have warn_in: "Warn w \<in> set log \<Longrightarrow> Warn w \<in> set (new_events t t')" for w
      unfolding ev by simp
    have ret: "out = Returned \<longleftrightarrow> r = Inr ()"
      using out by (cases r) auto
    let ?V = "map snd (validated_claims c (cryptoStore t) u devs)"
    from process_users_outcome [OF pu assms(3,4)]
    consider (kept) "cryptoStore t' u = cryptoStore t u"
          "\<forall>vs. SetUserDevices u vs \<notin> set log" "r \<noteq> Inr ()"
      | (written) "cryptoStore t' u = ?V"
          "\<forall>vs. SetUserDevices u vs \<in> set log \<longrightarrow> vs = ?V"
          "SetUserDevices u ?V \<in> set log"
          "\<forall>d dev w. (d, dev) \<in> set devs
                  \<and> check_device c (cryptoStore t) u d dev = Inr (Ignored w)
                \<longrightarrow> Warn w \<in> set log"
      by fastforce
    then show ?thesis
    proof cases
      case kept
      then show ?thesis unfolding set_iff ret by (intro disjI1 conjI)
    next
      case written
      from written(4) warn_in
      have "\<forall>d dev w. (d, dev) \<in> set devs
                  \<and> check_device c (cryptoStore t) u d dev = Inr (Ignored w)
                \<longrightarrow> Warn w \<in> set (new_events t t')"
        by blast
      with written(1-3) show ?thesis unfolding set_iff by (intro disjI2 conjI)
    qed
  qed
qed

lemma validated_claims_sound:
  assumes "x \<in> set (map snd (validated_claims c store u devs))"
  shows "user_id x = u" and "(device_id x, x) \<in> set devs"
    and "truthy (keys x (key_name DeviceKeyAlgorithm_Ed25119 (device_id x)))"
    and "truthy (keys x (key_name DeviceKeyAlgorithm_Curve25519 (device_id x)))"
proof -
  from assms obtain d where "(d, x) \<in> set (validated_claims c store u devs)" by auto
  then have m: "(d, x) \<in> set devs" and v: "check_device c store u d x = Inr Validated"
    by (simp_all add: in_validated_claims)
  from check_device_Validated(1-4) [OF v] m
  show "user_id x = u" and "(device_id x, x) \<in> set devs"
    and "truthy (keys x (key_name DeviceKeyAlgorithm_Ed25119 (device_id x)))"
    and "truthy (keys x (key_name DeviceKeyAlgorithm_Curve25519 (device_id x)))"
    by simp_all
qed

section \<open>Steps of calls that overlap\<close>

text \<open>
  Case analyses of one step, and what every sequence of steps preserves: the trace only
  grows, a registry entry changes only by a registration, a device in the array
  \<^verbatim>\<open>validated\<close> of a call was put there by a check step, and a call that has ended
  stays where it is.
\<close>

lemma run_Nil: "run [] cfg = cfg"
  by (simp add: run_def)

lemma run_Cons: "run (a # acts) cfg = run acts (perform a cfg)"
  by (simp add: run_def)

lemma run_append: "run (acts @ acts') cfg = run acts' (run acts cfg)"
  by (simp add: run_def)

lemma call_update_cases:
  assumes "call_updateUsersDeviceLists c t userIds = (t', k)"
  obtains (wait) "existingPromises t userIds \<noteq> []" "t' = t"
      "k = \<lparr>call_client = c, call_userIds = userIds, pos = AtWait (existingPromises t userIds)\<rparr>"
  | (start) "existingPromises t userIds = []" "start_pass t userIds = (t', next_promise t)"
      "k = \<lparr>call_client = c, call_userIds = userIds, pos = AtFetch (next_promise t)\<rparr>"
proof (cases "existingPromises t userIds = []")
  case True
  obtain t1 p where sp: "start_pass t userIds = (t1, p)" by (cases "start_pass t userIds")
  with start_pass_fields [OF sp] assms True show ?thesis
    by (intro start) (auto simp: call_updateUsersDeviceLists_def)
next
  case False
  with assms show ?thesis
    by (intro wait) (auto simp: call_updateUsersDeviceLists_def Let_def)
qed

lemma resume_at_cases:
  assumes "resume_at c us t q = (t', q', started)"
  obtains
    (wait_go) ps where "q = AtWait ps" "await_all t ps = Returned"
      "start_pass t us = (t', next_promise t)" "q' = AtFetch (next_promise t)" "started = []"
  | (wait_throw) ps e where "q = AtWait ps" "await_all t ps = Thrown e" "t' = t"
      "q' = Ended (Thrown e)" "started = []"
  | (wait_stay) ps where "q = AtWait ps" "await_all t ps = Suspended" "t' = t" "q' = q"
      "started = []"
  | (fetch_fail) p e where "q = AtFetch p" "getUserDevices c us = Inl e"
      "t' = t\<lparr>trace := trace t @ [UnhandledRejection e]\<rparr>" "q' = Ended Suspended" "started = []"
  | (fetch_ok) p resp where "q = AtFetch p" "getUserDevices c us = Inr resp" "t' = t"
      "q' = enter_loop p resp" "started = []"
  | (commit) p rest u vs where "q = AtDevice p rest u [] vs"
      "t' = t\<lparr>cryptoStore := (cryptoStore t)(u := vs), trace := trace t @ [SetUserDevices u vs]\<rparr>"
      "q' = enter_loop p rest" "started = []"
  | (check_throw) p rest u d dev ds vs e where "q = AtDevice p rest u ((d, dev) # ds) vs"
      "check_device c (cryptoStore t) u d dev = Inl e"
      "t' = t\<lparr>trace := trace t @ [UnhandledRejection e]\<rparr>" "q' = Ended Suspended" "started = []"
  | (check_ignore) p rest u d dev ds vs w where "q = AtDevice p rest u ((d, dev) # ds) vs"
      "check_device c (cryptoStore t) u d dev = Inr (Ignored w)"
      "t' = t\<lparr>trace := trace t @ [Warn w]\<rparr>" "q' = AtDevice p rest u ds vs" "started = []"
  | (check_ok) p rest u d dev ds vs where "q = AtDevice p rest u ((d, dev) # ds) vs"
      "check_device c (cryptoStore t) u d dev = Inr Validated"
      "t' = t" "q' = AtDevice p rest u ds (vs @ [dev])" "started = []"
  | (resolve) p where "q = AtResolve p"
      "t' = t\<lparr>promises := (promises t)(p := Fulfilled), trace := trace t @ [Resolved p]\<rparr>"
      "q' = Ended Returned" "started = []"
  | (flag_resync) k where "q = AtFlagged True" "call_updateUsersDeviceLists c t us = (t', k)"
      "q' = Ended Returned" "started = [k]"
  | (flag_plain) "q = AtFlagged False" "t' = t" "q' = Ended Returned" "started = []"
  | (ended) out where "q = Ended out" "t' = t" "q' = q" "started = []"
proof (cases q)
  case (AtWait ps)
  obtain t1 p where sp: "start_pass t us = (t1, p)" by (cases "start_pass t us")
  note f = start_pass_fields [OF sp]
  show ?thesis
  proof (cases "await_all t ps")
    case Returned
    with assms AtWait sp f show ?thesis by (intro wait_go [of ps]) auto
  next
    case (Thrown e)
    with assms AtWait show ?thesis by (intro wait_throw [of ps e]) auto
  next
    case Suspended
    with assms AtWait show ?thesis by (intro wait_stay [of ps]) auto
  qed
next
  case (AtFetch p)
  show ?thesis
  proof (cases "getUserDevices c us")
    case (Inl e)
    with assms AtFetch show ?thesis by (intro fetch_fail [of p e]) auto
  next
    case (Inr resp)
    with assms AtFetch show ?thesis by (intro fetch_ok [of p resp]) auto
  qed
next
  case (AtDevice p rest u devs vs)
  show ?thesis
  proof (cases devs)
    case Nil
    with assms AtDevice show ?thesis by (intro commit [of p rest u vs]) auto
  next
    case (Cons x ds)
    obtain d dev where x: "x = (d, dev)" by (cases x)
    show ?thesis
    proof (cases "check_device c (cryptoStore t) u d dev")
      case (Inl e)
      with assms AtDevice Cons x show ?thesis
        by (intro check_throw [of p rest u d dev ds vs e]) auto
    next
      case (Inr v)
      show ?thesis
      proof (cases v)
        case Validated
        with Inr assms AtDevice Cons x show ?thesis
          by (intro check_ok [of p rest u d dev ds vs]) auto
      next
        case (Ignored w)
        with Inr assms AtDevice Cons x show ?thesis
          by (intro check_ignore [of p rest u d dev ds vs w]) auto
      qed
    qed
  qed
next
  case (AtResolve p)
  with assms show ?thesis by (intro resolve [of p]) auto
next
  case (AtFlagged resync)
  show ?thesis
  proof (cases resync)
    case True
    obtain t1 k where "call_updateUsersDeviceLists c t us = (t1, k)"
      by (cases "call_updateUsersDeviceLists c t us")
    with assms AtFlagged True show ?thesis by (intro flag_resync [of k]) auto
  next
    case False
    with assms AtFlagged show ?thesis by (intro flag_plain) auto
  qed
next
  case (Ended out)
  with assms show ?thesis by (intro ended [of out]) auto
qed

lemma perform_cases:
  assumes "perform a (t, calls) = (t', calls')"
  obtains
    (Call) c us k where "a = Call c us" "call_updateUsersDeviceLists c t us = (t', k)"
      "calls' = calls @ [k]"
  | (Flag) c store_flag us resync k where "a = Flag c store_flag us resync"
      "call_flagUsersOutdated c store_flag t us resync = (t', k)" "calls' = calls @ [k]"
  | (Resume) i q' started where "a = Resume i" "i < length calls"
      "resume_at (call_client (calls ! i)) (call_userIds (calls ! i)) t (pos (calls ! i))
         = (t', q', started)"
      "calls' = calls[i := (calls ! i)\<lparr>pos := q'\<rparr>] @ started"
  | (Idle) i where "a = Resume i" "\<not> i < length calls" "t' = t" "calls' = calls"
proof (cases a)
  case (Call c us)
  with assms show ?thesis
    by (cases "call_updateUsersDeviceLists c t us") (auto intro: that(1))
next
  case (Flag c store_flag us resync)
  with assms show ?thesis
    by (cases "call_flagUsersOutdated c store_flag t us resync") (auto intro: that(2))
next
  case (Resume i)
  show ?thesis
  proof (cases "i < length calls")
    case True
    obtain t1 q' started where
      "resume_at (call_client (calls ! i)) (call_userIds (calls ! i)) t (pos (calls ! i))
         = (t1, q', started)"
      by (cases "resume_at (call_client (calls ! i)) (call_userIds (calls ! i)) t (pos (calls ! i))")
    with assms Resume True show ?thesis by (intro that(3) [of i q' started]) auto
  next
    case False
    with assms Resume show ?thesis by (intro that(4) [of i]) auto
  qed
qed

lemma perform_tracker:
  assumes "perform a (t, calls) = (t', calls')"
  obtains
    (same) "t' = t"
  | (start) us where "start_pass t us = (t', next_promise t)"
  | (said) e where "(\<exists>w. e = Warn w) \<or> (\<exists>x. e = UnhandledRejection x)"
      "t' = t\<lparr>trace := trace t @ [e]\<rparr>"
  | (commit) u vs where
      "t' = t\<lparr>cryptoStore := (cryptoStore t)(u := vs), trace := trace t @ [SetUserDevices u vs]\<rparr>"
  | (resolve) p where
      "t' = t\<lparr>promises := (promises t)(p := Fulfilled), trace := trace t @ [Resolved p]\<rparr>"
  | (flag) us where
      "t' = t\<lparr>outdated := outdated t \<union> set us, trace := trace t @ [FlaggedOutdated us]\<rparr>"
  using assms
proof (cases rule: perform_cases)
  case (Call c us k)
  from Call(2) show ?thesis
    by (cases rule: call_update_cases) (auto intro: same start)
next
  case (Flag c store_flag us resync k)
  then show ?thesis
    by (cases "store_flag us") (auto simp: call_flagUsersOutdated_def intro: same flag)
next
  case (Resume i q' started)
  from Resume(3) show ?thesis
  proof (cases rule: resume_at_cases)
    case (flag_resync k)
    from flag_resync(2) show ?thesis
      by (cases rule: call_update_cases) (auto intro: same start)
  qed (auto intro: same start said commit resolve)
next
  case (Idle i)
  then show ?thesis by (auto intro: same)
qed

lemma start_pass_events:
  assumes "start_pass t us = (t', p)"
  shows "new_events t t' = FetchIssued us # map (\<lambda>u. Registered u (next_promise t)) us"
  using start_pass_fields [OF assms] by (intro new_events_eq) simp

lemma perform_trace:
  assumes "perform a (t, calls) = (t', calls')"
  shows "trace t' = trace t @ new_events t t'"
  using assms
proof (cases rule: perform_tracker)
  case (start us)
  from start_pass_fields [OF start] start_pass_events [OF start] show ?thesis by simp
qed (simp_all add: new_events_def)

lemma run_trace:
  "run acts (t, calls) = (t', calls') \<Longrightarrow> trace t' = trace t @ new_events t t'"
proof (induction acts arbitrary: t calls)
  case Nil
  then show ?case by (simp add: run_Nil)
next
  case (Cons a acts)
  obtain t1 calls1 where step: "perform a (t, calls) = (t1, calls1)"
    by (cases "perform a (t, calls)")
  with Cons.prems have "run acts (t1, calls1) = (t', calls')" by (simp add: run_Cons)
  from new_events_trans [OF perform_trace [OF step] Cons.IH [OF this]]
    perform_trace [OF step] Cons.IH [OF this]
  show ?case by simp
qed

lemma perform_fetch:
  assumes "perform a (t, calls) = (t', calls')"
    and "FetchIssued us \<in> set (new_events t t')"
  shows "start_pass t us = (t', next_promise t)"
  using assms(1)
proof (cases rule: perform_tracker)
  case (start us')
  from start_pass_events [OF start] assms(2) have "us' = us" by auto
  with start show ?thesis by simp
qed (use assms(2) in \<open>auto simp: new_events_def\<close>)

lemma perform_registry:
  assumes "perform a (t, calls) = (t', calls')"
  shows "deviceListUpdates t' u = deviceListUpdates t u
       \<or> (\<exists>q. Registered u q \<in> set (new_events t t'))"
  using assms
proof (cases rule: perform_tracker)
  case (start us)
  from start_pass_fields [OF start] start_pass_events [OF start] show ?thesis
    by (cases "u \<in> set us") (auto simp: fold_register)
qed (auto simp: new_events_def)

lemma run_registry:
  "run acts (t, calls) = (t', calls') \<Longrightarrow>
   deviceListUpdates t' u = deviceListUpdates t u
     \<or> (\<exists>q. Registered u q \<in> set (new_events t t'))"
proof (induction acts arbitrary: t calls)
  case Nil
  then show ?case by (simp add: run_Nil)
next
  case (Cons a acts)
  obtain t1 calls1 where step: "perform a (t, calls) = (t1, calls1)"
    by (cases "perform a (t, calls)")
  with Cons.prems have rest: "run acts (t1, calls1) = (t', calls')" by (simp add: run_Cons)
  have "new_events t t' = new_events t t1 @ new_events t1 t'"
    using perform_trace [OF step] run_trace [OF rest] by (rule new_events_trans)
  with Cons.IH [OF rest] perform_registry [OF step, where u = u] show ?case by auto
qed

lemma perform_fresh:
  assumes "perform a (t, calls) = (t', calls')"
    and "\<forall>u q. deviceListUpdates t u = Some q \<longrightarrow> q < next_promise t"
  shows "\<forall>u q. deviceListUpdates t' u = Some q \<longrightarrow> q < next_promise t'"
  using assms(1)
proof (cases rule: perform_tracker)
  case (start us)
  from start_pass_fields [OF start] assms(2) show ?thesis
    by (auto simp: fold_register less_Suc_eq split: if_splits)
qed (use assms(2) in auto)

lemma run_fresh:
  "run acts (t, calls) = (t', calls') \<Longrightarrow>
   \<forall>u q. deviceListUpdates t u = Some q \<longrightarrow> q < next_promise t \<Longrightarrow>
   \<forall>u q. deviceListUpdates t' u = Some q \<longrightarrow> q < next_promise t'"
proof (induction acts arbitrary: t calls)
  case Nil
  then show ?case by (simp add: run_Nil)
next
  case (Cons a acts)
  obtain t1 calls1 where step: "perform a (t, calls) = (t1, calls1)"
    by (cases "perform a (t, calls)")
  with Cons.prems have rest: "run acts (t1, calls1) = (t', calls')" by (simp add: run_Cons)
  from Cons.IH [OF rest perform_fresh [OF step Cons.prems(2)]] show ?case .
qed

lemma check_device_pinned:
  assumes "check_device c store u d dev = Inr Validated"
  shows "pinned_against (store u) dev"
  using check_device_Validated(2,5) [OF assms]
  by (auto simp: pinned_against_def split: option.splits)

lemma validating_pinned:
  assumes "validating a (t, calls) u x"
  shows "pinned_against (cryptoStore t u) x"
  using assms
  by (auto simp: validating_def split: action.splits position.splits list.splits
      dest: check_device_pinned)

lemma in_hand_simps [simp]:
  "in_hand (k\<lparr>pos := AtDevice p rest u ds vs\<rparr>) = Some (u, vs)"
  "in_hand (k\<lparr>pos := AtWait ps\<rparr>) = None"
  "in_hand (k\<lparr>pos := AtFetch p\<rparr>) = None"
  "in_hand (k\<lparr>pos := AtResolve p\<rparr>) = None"
  "in_hand (k\<lparr>pos := AtFlagged b\<rparr>) = None"
  "in_hand (k\<lparr>pos := Ended out\<rparr>) = None"
  by (simp_all add: in_hand_def)

lemma in_hand_enter_loop:
  "in_hand (k\<lparr>pos := enter_loop p resp\<rparr>) = Some (u, vs) \<Longrightarrow> vs = []"
  by (auto simp: enter_loop_def split: list.splits)

lemma in_hand_started:
  assumes "call_updateUsersDeviceLists c t us = (t', k)"
  shows "in_hand k = None"
  using assms by (cases rule: call_update_cases) (simp_all add: in_hand_def)

lemma in_hand_flagged:
  assumes "call_flagUsersOutdated c store_flag t us resync = (t', k)"
  shows "in_hand k = None"
  using assms by (cases "store_flag us") (auto simp: call_flagUsersOutdated_def in_hand_def)

lemma set_update_cases:
  assumes "k \<in> set (xs[i := y] @ ys)"
  shows "k \<in> set xs \<or> k = y \<or> k \<in> set ys"
  using assms set_update_subset_insert [of xs i y] by auto

lemma perform_validated:
  assumes "perform a (t, calls) = (t', calls')"
    and inv: "\<forall>k \<in> set calls. \<forall>u vs. in_hand k = Some (u, vs)
                \<longrightarrow> (\<forall>x \<in> set vs. J u x)"
  shows "\<forall>k \<in> set calls'. \<forall>u vs. in_hand k = Some (u, vs)
           \<longrightarrow> (\<forall>x \<in> set vs. J u x \<or> validating a (t, calls) u x)"
  using assms(1)
proof (cases rule: perform_cases)
  case (Call c us k)
  with inv in_hand_started [OF Call(2)] show ?thesis by auto
next
  case (Flag c store_flag us resync k)
  with inv in_hand_flagged [OF Flag(2)] show ?thesis by auto
next
  case (Idle i)
  with inv show ?thesis by auto
next
  case (Resume i q' started)
  let ?k = "calls ! i"
  have old: "?k \<in> set calls" using Resume(2) by simp
  have both: "(\<forall>u vs. in_hand (?k\<lparr>pos := q'\<rparr>) = Some (u, vs)
           \<longrightarrow> (\<forall>x \<in> set vs. J u x \<or> validating a (t, calls) u x))
        \<and> (\<forall>k \<in> set started. in_hand k = None)"
    using Resume(3)
  proof (cases rule: resume_at_cases)
    case (check_ok p rest u d dev ds vs)
    from check_ok(1) have "in_hand ?k = Some (u, vs)" by (simp add: in_hand_def)
    with inv old have "\<forall>x \<in> set vs. J u x" by blast
    moreover have "validating a (t, calls) u dev"
      using Resume(1,2) check_ok(1,2) by (simp add: validating_def)
    ultimately show ?thesis using check_ok(4,5) by auto
  next
    case (check_ignore p rest u d dev ds vs w)
    from check_ignore(1) have "in_hand ?k = Some (u, vs)" by (simp add: in_hand_def)
    with inv old have "\<forall>x \<in> set vs. J u x" by blast
    with check_ignore(4,5) show ?thesis by auto
  next
    case (wait_stay ps)
    then show ?thesis by simp
  next
    case (ended out)
    then show ?thesis by simp
  next
    case (flag_resync k)
    with in_hand_started [OF flag_resync(2)] show ?thesis by simp
  qed (auto dest: in_hand_enter_loop)
  then have stepped: "\<forall>u vs. in_hand (?k\<lparr>pos := q'\<rparr>) = Some (u, vs)
           \<longrightarrow> (\<forall>x \<in> set vs. J u x \<or> validating a (t, calls) u x)"
    and fresh: "\<forall>k \<in> set started. in_hand k = None"
    by blast+
  show ?thesis
  proof (intro ballI allI impI)
    fix k u vs x
    assume k: "k \<in> set calls'" and hand: "in_hand k = Some (u, vs)" and x: "x \<in> set vs"
    from k Resume(4) have "k \<in> set (calls[i := ?k\<lparr>pos := q'\<rparr>] @ started)" by simp
    then have "k \<in> set calls \<or> k = ?k\<lparr>pos := q'\<rparr> \<or> k \<in> set started"
      by (rule set_update_cases)
    then show "J u x \<or> validating a (t, calls) u x"
    proof (elim disjE)
      assume "k \<in> set calls"
      with inv hand x show ?thesis by blast
    next
      assume "k = ?k\<lparr>pos := q'\<rparr>"
      with stepped hand x show ?thesis by blast
    next
      assume "k \<in> set started"
      with fresh hand show ?thesis by simp
    qed
  qed
qed

lemma perform_commit:
  assumes "perform a (t, calls) = (t', calls')"
    and "SetUserDevices u vs \<in> set (new_events t t')"
  shows "\<exists>k \<in> set calls. in_hand k = Some (u, vs)"
  using assms(1)
proof (cases rule: perform_cases)
  case (Call c us k)
  from Call(2) assms(2) show ?thesis
    by (cases rule: call_update_cases) (auto dest: start_pass_events)
next
  case (Flag c store_flag us resync k)
  with assms(2) show ?thesis
    by (cases "store_flag us") (auto simp: call_flagUsersOutdated_def new_events_def)
next
  case (Idle i)
  with assms(2) show ?thesis by simp
next
  case (Resume i q' started)
  from Resume(3) show ?thesis
  proof (cases rule: resume_at_cases)
    case (commit p rest u' vs')
    with assms(2) have "u' = u" "vs' = vs" by (auto simp: new_events_def)
    with commit(1) have "in_hand (calls ! i) = Some (u, vs)" by (simp add: in_hand_def)
    with Resume(2) show ?thesis by (auto intro: bexI [of _ "calls ! i"])
  next
    case (flag_resync k)
    from flag_resync(2) assms(2) show ?thesis
      by (cases rule: call_update_cases) (auto dest: start_pass_events)
  qed (use assms(2) in \<open>auto simp: new_events_def dest: start_pass_events\<close>)
qed

lemma run_commits_validated:
  assumes "run acts (t, calls) = (t', calls')"
    and "\<forall>k \<in> set calls. \<forall>u vs. in_hand k = Some (u, vs) \<longrightarrow> (\<forall>x \<in> set vs. J u x)"
    and "SetUserDevices u vs \<in> set (new_events t t')"
    and "x \<in> set vs"
  shows "J u x
       \<or> (\<exists>m < length acts. validating (acts ! m) (run (take m acts) (t, calls)) u x)"
  using assms
proof (induction acts arbitrary: t calls J)
  case Nil
  then show ?case by (simp add: run_Nil)
next
  case (Cons a acts)
  obtain t1 calls1 where step: "perform a (t, calls) = (t1, calls1)"
    by (cases "perform a (t, calls)")
  with Cons.prems(1) have rest: "run acts (t1, calls1) = (t', calls')" by (simp add: run_Cons)
  have "new_events t t' = new_events t t1 @ new_events t1 t'"
    using perform_trace [OF step] run_trace [OF rest] by (rule new_events_trans)
  with Cons.prems(3)
  consider (now) "SetUserDevices u vs \<in> set (new_events t t1)"
    | (later) "SetUserDevices u vs \<in> set (new_events t1 t')"
    by auto
  then show ?case
  proof cases
    case now
    from perform_commit [OF step now] Cons.prems(2,4) show ?thesis by blast
  next
    case later
    let ?J1 = "\<lambda>u x. J u x \<or> validating a (t, calls) u x"
    have inv1: "\<forall>k \<in> set calls1. \<forall>u vs. in_hand k = Some (u, vs)
                  \<longrightarrow> (\<forall>x \<in> set vs. ?J1 u x)"
      using perform_validated [OF step Cons.prems(2)] .
    from Cons.IH [OF rest inv1 later Cons.prems(4)]
    consider (first) "validating a (t, calls) u x"
      | (before) "J u x"
      | (after) m where "m < length acts"
          "validating (acts ! m) (run (take m acts) (t1, calls1)) u x"
      by auto
    then show ?thesis
    proof cases
      case first
      then have "validating ((a # acts) ! 0) (run (take 0 (a # acts)) (t, calls)) u x"
        by (simp add: run_Nil)
      then show ?thesis by (intro disjI2 exI [of _ 0]) simp
    next
      case before
      then show ?thesis by blast
    next
      case (after m)
      from after(2) step
      have "validating ((a # acts) ! Suc m) (run (take (Suc m) (a # acts)) (t, calls)) u x"
        by (simp add: run_Cons)
      with after(1) show ?thesis by (intro disjI2 exI [of _ "Suc m"]) simp
    qed
  qed
qed

lemma check_device_key_changed:
  assumes "find (\<lambda>x. device_id x = d) (store u) = Some existing"
    and "keys existing (key_name DeviceKeyAlgorithm_Ed25119 d)
           \<noteq> keys dev (key_name DeviceKeyAlgorithm_Ed25119 d)"
  shows "\<exists>w. check_device c store u d dev = Inr (Ignored w)"
  using assms by (simp add: check_device_def Let_def)

lemma perform_nth:
  assumes "perform a (t, calls) = (t', calls')" and "j < length calls"
  shows "j < length calls'
       \<and> call_client (calls' ! j) = call_client (calls ! j)
       \<and> call_userIds (calls' ! j) = call_userIds (calls ! j)
       \<and> (a \<noteq> Resume j \<longrightarrow> pos (calls' ! j) = pos (calls ! j))
       \<and> (a = Resume j \<longrightarrow>
            pos (calls' ! j)
              = fst (snd (resume_at (call_client (calls ! j)) (call_userIds (calls ! j)) t
                  (pos (calls ! j)))))"
  using assms(1)
proof (cases rule: perform_cases)
  case (Resume i q' started)
  with assms(2) show ?thesis
    by (cases "i = j") (auto simp: nth_append nth_list_update)
qed (use assms(2) in \<open>auto simp: nth_append\<close>)

lemma run_pos_closed:
  assumes "run acts (t, calls) = (t', calls')"
    and "i < length calls"
    and "pos (calls ! i) \<in> S"
    and closed: "\<And>c us t q. q \<in> S \<Longrightarrow> fst (snd (resume_at c us t q)) \<in> S"
  shows "i < length calls' \<and> pos (calls' ! i) \<in> S
       \<and> call_client (calls' ! i) = call_client (calls ! i)
       \<and> call_userIds (calls' ! i) = call_userIds (calls ! i)"
  using assms(1,2,3)
proof (induction acts arbitrary: t calls)
  case Nil
  then show ?case by (simp add: run_Nil)
next
  case (Cons a acts)
  obtain t1 calls1 where step: "perform a (t, calls) = (t1, calls1)"
    by (cases "perform a (t, calls)")
  with Cons.prems(1) have rest: "run acts (t1, calls1) = (t', calls')" by (simp add: run_Cons)
  note n = perform_nth [OF step Cons.prems(2)]
  have "pos (calls1 ! i) \<in> S"
  proof (cases "a = Resume i")
    case True
    with n closed [OF Cons.prems(3)] show ?thesis by simp
  next
    case False
    with n Cons.prems(3) show ?thesis by simp
  qed
  with Cons.IH [OF rest] n show ?case by simp
qed

lemma run_ended:
  assumes "run acts (t, calls) = (t', calls')" and "i < length calls"
    and "pos (calls ! i) = Ended out"
  shows "i < length calls' \<and> pos (calls' ! i) = Ended out"
  using run_pos_closed [OF assms(1,2), of "{Ended out}"] assms(3) by auto



lemma flagged_closed:
  "q \<in> {AtFlagged resync, Ended Returned}
   \<Longrightarrow> fst (snd (resume_at c us t q)) \<in> {AtFlagged resync, Ended Returned}"
  by (auto split: prod.splits if_splits)

lemma call_update_waits_or_fetches:
  assumes "call_updateUsersDeviceLists c t us = (t', k)"
  shows "call_client k = c \<and> call_userIds k = us
       \<and> ((existingPromises t us = [] \<and> pos k = AtFetch (next_promise t)
              \<and> new_events t t' = FetchIssued us # map (\<lambda>u. Registered u (next_promise t)) us)
          \<or> (existingPromises t us \<noteq> [] \<and> pos k = AtWait (existingPromises t us) \<and> t' = t))"
  using assms
  by (cases rule: call_update_cases) (auto dest: start_pass_events)

lemma validating_sound:
  assumes "validating a (t, calls) u x"
  shows "user_id x = u"
    and "truthy (keys x (key_name DeviceKeyAlgorithm_Ed25119 (device_id x)))"
    and "truthy (keys x (key_name DeviceKeyAlgorithm_Curve25519 (device_id x)))"
proof -
  from assms obtain c store d where v: "check_device c store u d x = Inr Validated"
    by (auto simp: validating_def split: action.splits position.splits list.splits)
  from check_device_Validated(1-4) [OF v]
  show "user_id x = u"
    and "truthy (keys x (key_name DeviceKeyAlgorithm_Ed25119 (device_id x)))"
    and "truthy (keys x (key_name DeviceKeyAlgorithm_Curve25519 (device_id x)))"
    by simp_all
qed

lemma written_devices_sound:
  assumes "SetUserDevices u vs \<in> set (new_events t0 (fst (run acts (t0, []))))"
    and "x \<in> set vs"
  shows "user_id x = u"
    and "truthy (keys x (key_name DeviceKeyAlgorithm_Ed25119 (device_id x)))"
    and "truthy (keys x (key_name DeviceKeyAlgorithm_Curve25519 (device_id x)))"
proof -
  obtain t calls where r: "run acts (t0, []) = (t, calls)"
    by (cases "run acts (t0, [])")
  with assms(1) have ev: "SetUserDevices u vs \<in> set (new_events t0 t)" by simp
  have "\<forall>k \<in> set ([] :: call list). \<forall>u vs. in_hand k = Some (u, vs)
          \<longrightarrow> (\<forall>x \<in> set vs. False)"
    by simp
  from run_commits_validated [OF r this ev assms(2)]
  obtain m where "validating (acts ! m) (run (take m acts) (t0, [])) u x"
    by blast
  then have v: "validating (acts ! m) (fst (run (take m acts) (t0, [])), snd (run (take m acts) (t0, []))) u x"
    by simp
  from validating_sound [OF v]
  show "user_id x = u"
    and "truthy (keys x (key_name DeviceKeyAlgorithm_Ed25119 (device_id x)))"
    and "truthy (keys x (key_name DeviceKeyAlgorithm_Curve25519 (device_id x)))"
    by simp_all
qed

text \<open>
  In the schedule \<^const>\<open>overlap_acts\<close>, once the second and the third call are both
  past their wait on the first pass, the registry holds the third call's handle for
  Alice while the second call's pass is still pending: a call made now waits for the
  third pass only.
\<close>

lemma registration_replaced:
  "deviceListUpdates (fst (run (take 9 overlap_acts) (new_tracker (\<lambda>_. []), []))) alice = Some 2
   \<and> promises (fst (run (take 9 overlap_acts) (new_tracker (\<lambda>_. []), []))) 1 = Pending
   \<and> pos (snd (run (take 9 overlap_acts) (new_tracker (\<lambda>_. []), [])) ! 1) = AtFetch 1
   \<and> pos (snd (call_updateUsersDeviceLists offline
          (fst (run (take 9 overlap_acts) (new_tracker (\<lambda>_. []), []))) [alice])) = AtWait [2]"
  by (simp add: fine_defs model_defs world_defs)

section \<open>A call run alone\<close>

text \<open>
  The steps of one call, taken with no other call in between, go through the inner
  loop as \<open>validate_devices\<close> does and through the outer loop as \<open>process_users\<close>
  does.
\<close>

lemma solo_step:
  "resume_at c us t q = (t', q', []) \<Longrightarrow> perform (Resume 0) (t, solo c us q) = (t', solo c us q')"
  by (simp add: solo_def)

lemma run_replicate_Suc:
  "run (replicate (Suc n) a) cfg = run (replicate n a) (perform a cfg)"
  by (simp add: run_Cons)

lemma run_replicate_add:
  "run (replicate (n + m) a) cfg = run (replicate m a) (run (replicate n a) cfg)"
  by (simp add: replicate_add run_append)

lemma run_after_step:
  "perform a cfg = cfg1 \<Longrightarrow> run (replicate n a) cfg1 = cfg2
   \<Longrightarrow> run (replicate (Suc n) a) cfg = cfg2"
  by (simp only: run_replicate_Suc)

lemma run_one:
  "perform a cfg = cfg1 \<Longrightarrow> run (replicate (Suc 0) a) cfg = cfg1"
  by (simp add: run_Cons run_Nil)

lemma run_replicate_fixed:
  "perform a cfg = cfg \<Longrightarrow> run (replicate n a) cfg = cfg"
  by (induction n) (simp_all add: run_Nil run_Cons)

lemma validate_devices_shift:
  "validate_devices c store u ds vs log
     = (fst (validate_devices c store u ds vs []), log @ snd (validate_devices c store u ds vs []))"
proof (induction ds arbitrary: vs log)
  case Nil
  show ?case by simp
next
  case (Cons x ds)
  obtain d dev where x: "x = (d, dev)" by (cases x)
  show ?case
  proof (cases "check_device c store u d dev")
    case (Inl e)
    then show ?thesis by (simp add: x)
  next
    case (Inr v)
    show ?thesis
    proof (cases v)
      case Validated
      with Inr Cons.IH [of "vs @ [dev]" log] show ?thesis by (simp add: x)
    next
      case (Ignored w)
      with Inr Cons.IH [of vs "log @ [Warn w]"] Cons.IH [of vs "[Warn w]"]
      show ?thesis by (simp add: x)
    qed
  qed
qed

lemma process_users_shift:
  "process_users c store resp log
     = (case process_users c store resp [] of (r, store', log') \<Rightarrow> (r, store', log @ log'))"
proof (induction resp arbitrary: store log)
  case Nil
  show ?case by simp
next
  case (Cons x resp)
  obtain u ds where x: "x = (u, ds)" by (cases x)
  obtain r log1 where v: "validate_devices c store u ds [] [] = (r, log1)"
    by (cases "validate_devices c store u ds [] []")
  then have v': "validate_devices c store u ds [] log = (r, log @ log1)"
    using validate_devices_shift [of c store u ds "[]" log] by simp
  show ?case
  proof (cases r)
    case (Inl e)
    with v v' show ?thesis by (simp add: x)
  next
    case (Inr vs)
    obtain r' store' log' where pu: "process_users c (store(u := vs)) resp [] = (r', store', log')"
      by (cases "process_users c (store(u := vs)) resp []")
    have a: "process_users c (store(u := vs)) resp ((log @ log1) @ [SetUserDevices u vs])
               = (r', store', ((log @ log1) @ [SetUserDevices u vs]) @ log')"
      using Cons.IH [of "store(u := vs)" "(log @ log1) @ [SetUserDevices u vs]"] pu
      by (simp only: prod.case)
    have b: "process_users c (store(u := vs)) resp (log1 @ [SetUserDevices u vs])
               = (r', store', (log1 @ [SetUserDevices u vs]) @ log')"
      using Cons.IH [of "store(u := vs)" "log1 @ [SetUserDevices u vs]"] pu
      by (simp only: prod.case)
    have l: "process_users c store (x # resp) log
               = process_users c (store(u := vs)) resp ((log @ log1) @ [SetUserDevices u vs])"
      using v' Inr by (simp add: x)
    have r: "process_users c store (x # resp) []
               = process_users c (store(u := vs)) resp (log1 @ [SetUserDevices u vs])"
      using v Inr by (simp add: x)
    show ?thesis unfolding l r a b by simp
  qed
qed

lemma solo_devices:
  "\<exists>n. run (replicate n (Resume 0)) (t, solo c us (AtDevice p rest u ds vs))
     = (case validate_devices c (cryptoStore t) u ds vs [] of
          (Inl e, log) \<Rightarrow>
            (t\<lparr>trace := trace t @ log @ [UnhandledRejection e]\<rparr>, solo c us (Ended Suspended))
        | (Inr vs', log) \<Rightarrow>
            (t\<lparr>trace := trace t @ log\<rparr>, solo c us (AtDevice p rest u [] vs')))"
proof (induction ds arbitrary: t vs)
  case Nil
  have "run (replicate 0 (Resume 0)) (t, solo c us (AtDevice p rest u [] vs))
          = (t\<lparr>trace := trace t @ []\<rparr>, solo c us (AtDevice p rest u [] vs))"
    by (simp add: run_Nil)
  then show ?case by (intro exI [of _ 0]) simp
next
  case (Cons x ds)
  obtain d dev where x: "x = (d, dev)" by (cases x)
  show ?case
  proof (cases "check_device c (cryptoStore t) u d dev")
    case (Inl e)
    then have "perform (Resume 0) (t, solo c us (AtDevice p rest u (x # ds) vs))
                 = (t\<lparr>trace := trace t @ [UnhandledRejection e]\<rparr>, solo c us (Ended Suspended))"
      by (intro solo_step) (simp add: x)
    then have "run (replicate (Suc 0) (Resume 0)) (t, solo c us (AtDevice p rest u (x # ds) vs))
                 = (t\<lparr>trace := trace t @ [UnhandledRejection e]\<rparr>, solo c us (Ended Suspended))"
      by (rule run_one)
    moreover have "validate_devices c (cryptoStore t) u (x # ds) vs [] = (Inl e, [])"
      using Inl by (simp add: x)
    ultimately show ?thesis by (intro exI [of _ "Suc 0"]) (simp only: prod.case sum.case append_Nil)
  next
    case (Inr v)
    show ?thesis
    proof (cases v)
      case Validated
      with Inr have step: "perform (Resume 0) (t, solo c us (AtDevice p rest u (x # ds) vs))
                 = (t, solo c us (AtDevice p rest u ds (vs @ [dev])))"
        by (intro solo_step) (simp add: x)
      from Cons.IH [of t "vs @ [dev]"] obtain n
        where "run (replicate n (Resume 0)) (t, solo c us (AtDevice p rest u ds (vs @ [dev])))
           = (case validate_devices c (cryptoStore t) u ds (vs @ [dev]) [] of
                (Inl e, log) \<Rightarrow>
                  (t\<lparr>trace := trace t @ log @ [UnhandledRejection e]\<rparr>, solo c us (Ended Suspended))
              | (Inr vs', log) \<Rightarrow>
                  (t\<lparr>trace := trace t @ log\<rparr>, solo c us (AtDevice p rest u [] vs')))"
        by blast
      with step
      have "run (replicate (Suc n) (Resume 0)) (t, solo c us (AtDevice p rest u (x # ds) vs))
           = (case validate_devices c (cryptoStore t) u ds (vs @ [dev]) [] of
                (Inl e, log) \<Rightarrow>
                  (t\<lparr>trace := trace t @ log @ [UnhandledRejection e]\<rparr>, solo c us (Ended Suspended))
              | (Inr vs', log) \<Rightarrow>
                  (t\<lparr>trace := trace t @ log\<rparr>, solo c us (AtDevice p rest u [] vs')))"
        by (rule run_after_step)
      moreover have "validate_devices c (cryptoStore t) u (x # ds) vs []
                       = validate_devices c (cryptoStore t) u ds (vs @ [dev]) []"
        using Inr Validated by (simp add: x)
      ultimately show ?thesis by (intro exI [of _ "Suc n"]) (simp only:)
    next
      case (Ignored w)
      let ?t1 = "t\<lparr>trace := trace t @ [Warn w]\<rparr>"
      from Ignored Inr have step: "perform (Resume 0) (t, solo c us (AtDevice p rest u (x # ds) vs))
                 = (?t1, solo c us (AtDevice p rest u ds vs))"
        by (intro solo_step) (simp add: x)
      from Cons.IH [of ?t1 vs] obtain n
        where n: "run (replicate n (Resume 0)) (?t1, solo c us (AtDevice p rest u ds vs))
           = (case validate_devices c (cryptoStore ?t1) u ds vs [] of
                (Inl e, log) \<Rightarrow>
                  (?t1\<lparr>trace := trace ?t1 @ log @ [UnhandledRejection e]\<rparr>, solo c us (Ended Suspended))
              | (Inr vs', log) \<Rightarrow>
                  (?t1\<lparr>trace := trace ?t1 @ log\<rparr>, solo c us (AtDevice p rest u [] vs')))"
        by blast
      have whole: "validate_devices c (cryptoStore t) u (x # ds) vs []
               = (fst (validate_devices c (cryptoStore t) u ds vs []),
                  [Warn w] @ snd (validate_devices c (cryptoStore t) u ds vs []))"
        using Inr Ignored validate_devices_shift [of c "cryptoStore t" u ds vs "[Warn w]"]
        by (simp add: x)
      obtain r log where v: "validate_devices c (cryptoStore t) u ds vs [] = (r, log)"
        by (cases "validate_devices c (cryptoStore t) u ds vs []")
      have same: "cryptoStore ?t1 = cryptoStore t" by simp
      from step n
      have n': "run (replicate (Suc n) (Resume 0)) (t, solo c us (AtDevice p rest u (x # ds) vs))
           = (case validate_devices c (cryptoStore ?t1) u ds vs [] of
                (Inl e, log) \<Rightarrow>
                  (?t1\<lparr>trace := trace ?t1 @ log @ [UnhandledRejection e]\<rparr>, solo c us (Ended Suspended))
              | (Inr vs', log) \<Rightarrow>
                  (?t1\<lparr>trace := trace ?t1 @ log\<rparr>, solo c us (AtDevice p rest u [] vs')))"
        by (rule run_after_step)
      have "run (replicate (Suc n) (Resume 0)) (t, solo c us (AtDevice p rest u (x # ds) vs))
           = (case validate_devices c (cryptoStore t) u (x # ds) vs [] of
          (Inl e, log) \<Rightarrow>
            (t\<lparr>trace := trace t @ log @ [UnhandledRejection e]\<rparr>, solo c us (Ended Suspended))
        | (Inr vs', log) \<Rightarrow>
            (t\<lparr>trace := trace t @ log\<rparr>, solo c us (AtDevice p rest u [] vs')))"
        unfolding n' same whole v by (cases r) simp_all
      then show ?thesis by (rule exI)
    qed
  qed
qed

lemma solo_users:
  "\<exists>n. run (replicate n (Resume 0)) (t, solo c us (enter_loop p resp))
     = (case process_users c (cryptoStore t) resp [] of
          (Inl e, store, log) \<Rightarrow>
            (t\<lparr>cryptoStore := store, trace := trace t @ log @ [UnhandledRejection e]\<rparr>,
             solo c us (Ended Suspended))
        | (Inr x, store, log) \<Rightarrow>
            (t\<lparr>cryptoStore := store, trace := trace t @ log @ [Resolved p],
               promises := (promises t)(p := Fulfilled)\<rparr>,
             solo c us (Ended Returned)))"
proof (induction resp arbitrary: t)
  case Nil
  have "perform (Resume 0) (t, solo c us (AtResolve p))
          = (t\<lparr>promises := (promises t)(p := Fulfilled), trace := trace t @ [Resolved p]\<rparr>,
             solo c us (Ended Returned))"
    by (intro solo_step) simp
  then have "run (replicate (Suc 0) (Resume 0)) (t, solo c us (AtResolve p))
          = (t\<lparr>promises := (promises t)(p := Fulfilled), trace := trace t @ [Resolved p]\<rparr>,
             solo c us (Ended Returned))"
    by (rule run_one)
  moreover have "t\<lparr>promises := (promises t)(p := Fulfilled), trace := trace t @ [Resolved p]\<rparr>
      = t\<lparr>cryptoStore := cryptoStore t, trace := trace t @ [] @ [Resolved p],
               promises := (promises t)(p := Fulfilled)\<rparr>"
    by simp
  ultimately have "run (replicate (Suc 0) (Resume 0)) (t, solo c us (enter_loop p []))
     = (case process_users c (cryptoStore t) [] [] of
          (Inl e, store, log) \<Rightarrow>
            (t\<lparr>cryptoStore := store, trace := trace t @ log @ [UnhandledRejection e]\<rparr>,
             solo c us (Ended Suspended))
        | (Inr x, store, log) \<Rightarrow>
            (t\<lparr>cryptoStore := store, trace := trace t @ log @ [Resolved p],
               promises := (promises t)(p := Fulfilled)\<rparr>,
             solo c us (Ended Returned)))"
    by (simp only: enter_loop_def list.case process_users.simps prod.case sum.case)
  then show ?case by (rule exI)
next
  case (Cons x resp)
  obtain u ds where x: "x = (u, ds)" by (cases x)
  obtain r log1 where v: "validate_devices c (cryptoStore t) u ds [] [] = (r, log1)"
    by (cases "validate_devices c (cryptoStore t) u ds [] []")
  from solo_devices [of t c us p resp u ds "[]"] obtain n1
    where n1: "run (replicate n1 (Resume 0)) (t, solo c us (AtDevice p resp u ds []))
     = (case validate_devices c (cryptoStore t) u ds [] [] of
          (Inl e, log) \<Rightarrow>
            (t\<lparr>trace := trace t @ log @ [UnhandledRejection e]\<rparr>, solo c us (Ended Suspended))
        | (Inr vs', log) \<Rightarrow>
            (t\<lparr>trace := trace t @ log\<rparr>, solo c us (AtDevice p resp u [] vs')))"
    by blast
  have start: "enter_loop p (x # resp) = AtDevice p resp u ds []"
    by (simp add: enter_loop_def x)
  show ?case
  proof (cases r)
    case (Inl e)
    with v have "process_users c (cryptoStore t) (x # resp) [] = (Inl e, cryptoStore t, log1)"
      by (simp add: x)
    moreover from Inl v n1
    have "run (replicate n1 (Resume 0)) (t, solo c us (AtDevice p resp u ds []))
            = (t\<lparr>cryptoStore := cryptoStore t, trace := trace t @ log1 @ [UnhandledRejection e]\<rparr>,
               solo c us (Ended Suspended))"
      by simp
    ultimately show ?thesis
      unfolding start by (intro exI [of _ n1]) (simp only: prod.case sum.case)
  next
    case (Inr vs)
    let ?t1 = "t\<lparr>trace := trace t @ log1\<rparr>"
    let ?t2 = "?t1\<lparr>cryptoStore := (cryptoStore ?t1)(u := vs),
                   trace := trace ?t1 @ [SetUserDevices u vs]\<rparr>"
    from Inr v n1
    have a: "run (replicate n1 (Resume 0)) (t, solo c us (AtDevice p resp u ds []))
               = (?t1, solo c us (AtDevice p resp u [] vs))"
      by simp
    have b: "perform (Resume 0) (?t1, solo c us (AtDevice p resp u [] vs))
               = (?t2, solo c us (enter_loop p resp))"
      by (intro solo_step) simp
    from Cons.IH [of ?t2] obtain n2
      where n2: "run (replicate n2 (Resume 0)) (?t2, solo c us (enter_loop p resp))
        = (case process_users c (cryptoStore ?t2) resp [] of
          (Inl e, store, log) \<Rightarrow>
            (?t2\<lparr>cryptoStore := store, trace := trace ?t2 @ log @ [UnhandledRejection e]\<rparr>,
             solo c us (Ended Suspended))
        | (Inr x, store, log) \<Rightarrow>
            (?t2\<lparr>cryptoStore := store, trace := trace ?t2 @ log @ [Resolved p],
               promises := (promises ?t2)(p := Fulfilled)\<rparr>,
             solo c us (Ended Returned)))"
      by blast
    have all: "run (replicate (n1 + Suc n2) (Resume 0)) (t, solo c us (AtDevice p resp u ds []))
        = run (replicate n2 (Resume 0)) (?t2, solo c us (enter_loop p resp))"
      by (simp only: run_replicate_add run_replicate_Suc a b)
    obtain r' store' log' where pu:
      "process_users c ((cryptoStore t)(u := vs)) resp [] = (r', store', log')"
      by (cases "process_users c ((cryptoStore t)(u := vs)) resp []")
    have whole: "process_users c (cryptoStore t) (x # resp) []
                   = (r', store', (log1 @ [SetUserDevices u vs]) @ log')"
      using v Inr pu
        process_users_shift [of c "(cryptoStore t)(u := vs)" resp "log1 @ [SetUserDevices u vs]"]
      by (simp add: x)
    have same: "cryptoStore ?t2 = (cryptoStore t)(u := vs)" by simp
    have "run (replicate (n1 + Suc n2) (Resume 0)) (t, solo c us (AtDevice p resp u ds []))
     = (case process_users c (cryptoStore t) (x # resp) [] of
          (Inl e, store, log) \<Rightarrow>
            (t\<lparr>cryptoStore := store, trace := trace t @ log @ [UnhandledRejection e]\<rparr>,
             solo c us (Ended Suspended))
        | (Inr x, store, log) \<Rightarrow>
            (t\<lparr>cryptoStore := store, trace := trace t @ log @ [Resolved p],
               promises := (promises t)(p := Fulfilled)\<rparr>,
             solo c us (Ended Returned)))"
      unfolding all n2 same pu whole by (cases r') simp_all
    then show ?thesis unfolding start by (rule exI)
  qed
qed

lemma solo_pass:
  assumes "promises t p = Pending"
  shows "\<exists>n. run (replicate n (Resume 0)) (t, solo c us (AtFetch p))
     = (run_executor c t p us, solo c us (Ended (await_promise (run_executor c t p us) p)))"
proof (cases "getUserDevices c us")
  case (Inl e)
  then have "perform (Resume 0) (t, solo c us (AtFetch p))
          = (t\<lparr>trace := trace t @ [UnhandledRejection e]\<rparr>, solo c us (Ended Suspended))"
    by (intro solo_step) simp
  then have "run (replicate (Suc 0) (Resume 0)) (t, solo c us (AtFetch p))
          = (t\<lparr>trace := trace t @ [UnhandledRejection e]\<rparr>, solo c us (Ended Suspended))"
    by (rule run_one)
  moreover have "run_executor c t p us = t\<lparr>trace := trace t @ [UnhandledRejection e]\<rparr>"
    using Inl by (simp add: run_executor_def)
  moreover have "await_promise (t\<lparr>trace := trace t @ [UnhandledRejection e]\<rparr>) p = Suspended"
    using assms by (simp add: await_promise_def)
  ultimately have "run (replicate (Suc 0) (Resume 0)) (t, solo c us (AtFetch p))
     = (run_executor c t p us, solo c us (Ended (await_promise (run_executor c t p us) p)))"
    by (simp only:)
  then show ?thesis by (rule exI)
next
  case (Inr resp)
  then have step: "perform (Resume 0) (t, solo c us (AtFetch p)) = (t, solo c us (enter_loop p resp))"
    by (intro solo_step) simp
  from solo_users [of t c us p resp] obtain n
    where n: "run (replicate n (Resume 0)) (t, solo c us (enter_loop p resp))
     = (case process_users c (cryptoStore t) resp [] of
          (Inl e, store, log) \<Rightarrow>
            (t\<lparr>cryptoStore := store, trace := trace t @ log @ [UnhandledRejection e]\<rparr>,
             solo c us (Ended Suspended))
        | (Inr x, store, log) \<Rightarrow>
            (t\<lparr>cryptoStore := store, trace := trace t @ log @ [Resolved p],
               promises := (promises t)(p := Fulfilled)\<rparr>,
             solo c us (Ended Returned)))"
    by blast
  obtain r store log where pu: "process_users c (cryptoStore t) resp [] = (r, store, log)"
    by (cases "process_users c (cryptoStore t) resp []")
  from step n
  have n': "run (replicate (Suc n) (Resume 0)) (t, solo c us (AtFetch p))
     = (case process_users c (cryptoStore t) resp [] of
          (Inl e, store, log) \<Rightarrow>
            (t\<lparr>cryptoStore := store, trace := trace t @ log @ [UnhandledRejection e]\<rparr>,
             solo c us (Ended Suspended))
        | (Inr x, store, log) \<Rightarrow>
            (t\<lparr>cryptoStore := store, trace := trace t @ log @ [Resolved p],
               promises := (promises t)(p := Fulfilled)\<rparr>,
             solo c us (Ended Returned)))"
    by (rule run_after_step)
  have "run (replicate (Suc n) (Resume 0)) (t, solo c us (AtFetch p))
     = (run_executor c t p us, solo c us (Ended (await_promise (run_executor c t p us) p)))"
    unfolding n' using pu Inr assms
    by (cases r) (simp_all add: run_executor_def await_promise_def)
  then show ?thesis by (rule exI)
qed

lemma solo_ended:
  "run (replicate n (Resume 0)) (t, solo c us (Ended out)) = (t, solo c us (Ended out))"
  by (intro run_replicate_fixed) (simp add: solo_def)

text \<open>
  One call resumed alone long enough, from a tracker with no call in flight, leaves the
  tracker that \<open>updateUsersDeviceLists\<close> leaves, at a place that stands for the outcome
  \<open>updateUsersDeviceLists\<close> gives.
\<close>

lemma solo_call:
  "\<exists>n. \<forall>m \<ge> n. \<exists>q.
     run (Call c us # replicate m (Resume 0)) (t, [])
       = (fst (updateUsersDeviceLists c t us), solo c us q)
     \<and> outcome_at q = snd (updateUsersDeviceLists c t us)"
proof -
  obtain t1 p where sp: "start_pass t us = (t1, p)" by (cases "start_pass t us")
  from start_pass_fields [OF sp] have pending: "promises t1 p = Pending" by simp
  let ?t2 = "run_executor c t1 p us"
  have rp: "run_pass c t us = (?t2, await_promise ?t2 p)"
    using sp by (simp add: run_pass_def Let_def)
  from solo_pass [OF pending, of c us] obtain n
    where n: "run (replicate n (Resume 0)) (t1, solo c us (AtFetch p))
                = (?t2, solo c us (Ended (await_promise ?t2 p)))"
    by blast
  have after: "run (replicate m (Resume 0)) (t1, solo c us (AtFetch p))
                = (?t2, solo c us (Ended (await_promise ?t2 p)))" if "m \<ge> n" for m
  proof -
    from that have "m = n + (m - n)" by simp
    then have "run (replicate m (Resume 0)) (t1, solo c us (AtFetch p))
        = run (replicate (m - n) (Resume 0)) (run (replicate n (Resume 0)) (t1, solo c us (AtFetch p)))"
      using run_replicate_add [of n "m - n"] by simp
    with n show ?thesis by (simp add: solo_ended)
  qed
  show ?thesis
  proof (cases "existingPromises t us = []")
    case True
    then have call: "perform (Call c us) (t, []) = (t1, solo c us (AtFetch p))"
      using sp by (simp add: call_updateUsersDeviceLists_def solo_def)
    from True rp have u: "updateUsersDeviceLists c t us = (?t2, await_promise ?t2 p)"
      by (simp add: updateUsersDeviceLists_def)
    show ?thesis
    proof (intro exI [of _ n] allI impI)
      fix m assume "n \<le> m"
      with after call u
      have "run (Call c us # replicate m (Resume 0)) (t, [])
              = (fst (updateUsersDeviceLists c t us), solo c us (Ended (await_promise ?t2 p)))
            \<and> outcome_at (Ended (await_promise ?t2 p)) = snd (updateUsersDeviceLists c t us)"
        by (simp add: run_Cons outcome_at_def)
      then show "\<exists>q. run (Call c us # replicate m (Resume 0)) (t, [])
              = (fst (updateUsersDeviceLists c t us), solo c us q)
            \<and> outcome_at q = snd (updateUsersDeviceLists c t us)"
        by blast
    qed
  next
    case False
    let ?ps = "existingPromises t us"
    from False have call: "perform (Call c us) (t, []) = (t, solo c us (AtWait ?ps))"
      by (simp add: call_updateUsersDeviceLists_def solo_def Let_def)
    show ?thesis
    proof (cases "await_all t ?ps")
      case Returned
      with False rp have u: "updateUsersDeviceLists c t us = (?t2, await_promise ?t2 p)"
        by (simp add: updateUsersDeviceLists_def Let_def)
      from Returned sp
      have go: "perform (Resume 0) (t, solo c us (AtWait ?ps)) = (t1, solo c us (AtFetch p))"
        by (intro solo_step) simp
      show ?thesis
      proof (intro exI [of _ "Suc n"] allI impI)
        fix m assume "Suc n \<le> m"
        then obtain m' where m: "m = Suc m'" and "n \<le> m'" by (cases m) auto
        with after call go u
        have "run (Call c us # replicate m (Resume 0)) (t, [])
              = (fst (updateUsersDeviceLists c t us), solo c us (Ended (await_promise ?t2 p)))
            \<and> outcome_at (Ended (await_promise ?t2 p)) = snd (updateUsersDeviceLists c t us)"
          by (simp add: run_Cons outcome_at_def)
        then show "\<exists>q. run (Call c us # replicate m (Resume 0)) (t, [])
              = (fst (updateUsersDeviceLists c t us), solo c us q)
            \<and> outcome_at q = snd (updateUsersDeviceLists c t us)"
          by blast
      qed
    next
      case (Thrown e)
      with False have u: "updateUsersDeviceLists c t us = (t, Thrown e)"
        by (simp add: updateUsersDeviceLists_def Let_def)
      from Thrown
      have go: "perform (Resume 0) (t, solo c us (AtWait ?ps)) = (t, solo c us (Ended (Thrown e)))"
        by (intro solo_step) simp
      show ?thesis
      proof (intro exI [of _ 1] allI impI)
        fix m :: nat assume "1 \<le> m"
        then obtain m' where m: "m = Suc m'" by (cases m) auto
        with call go u
        have "run (Call c us # replicate m (Resume 0)) (t, [])
              = (fst (updateUsersDeviceLists c t us), solo c us (Ended (Thrown e)))
            \<and> outcome_at (Ended (Thrown e)) = snd (updateUsersDeviceLists c t us)"
          by (simp add: run_Cons outcome_at_def solo_ended)
        then show "\<exists>q. run (Call c us # replicate m (Resume 0)) (t, [])
              = (fst (updateUsersDeviceLists c t us), solo c us q)
            \<and> outcome_at q = snd (updateUsersDeviceLists c t us)"
          by blast
      qed
    next
      case Suspended
      with False have u: "updateUsersDeviceLists c t us = (t, Suspended)"
        by (simp add: updateUsersDeviceLists_def Let_def)
      from Suspended
      have "perform (Resume 0) (t, solo c us (AtWait ?ps)) = (t, solo c us (AtWait ?ps))"
        by (intro solo_step) simp
      then have stay: "run (replicate m (Resume 0)) (t, solo c us (AtWait ?ps))
                         = (t, solo c us (AtWait ?ps))" for m
        by (rule run_replicate_fixed)
      show ?thesis
      proof (intro exI [of _ 0] allI impI)
        fix m :: nat
        from call stay u
        have "run (Call c us # replicate m (Resume 0)) (t, [])
              = (fst (updateUsersDeviceLists c t us), solo c us (AtWait ?ps))
            \<and> outcome_at (AtWait ?ps) = snd (updateUsersDeviceLists c t us)"
          by (simp add: run_Cons outcome_at_def)
        then show "\<exists>q. run (Call c us # replicate m (Resume 0)) (t, [])
              = (fst (updateUsersDeviceLists c t us), solo c us q)
            \<and> outcome_at q = snd (updateUsersDeviceLists c t us)"
          by blast
      qed
    qed
  qed
qed

section \<open>The claims\<close>

text \<open>
  C1, as amended. Key pinning holds at the check, against the stored list as it is read
  there (line 62). Take any tracker with no call in flight and any sequence of calls of
  the two methods and of steps of these calls, in any order. Then every device written
  to the store was validated by a check step of that sequence, and at that step the
  stored list of the user held no device of the same id with another Ed25519 key. And
  in the configuration reached, a call about to check a claim listed under an id that
  the stored list holds with another Ed25519 key drops the claim with a warning,
  whatever its signature is and whatever the verifier would say: the next step of that
  call changes nothing but the trace and moves on to the next device.

  Nothing more holds: the pin is against the stored list at the check, and that list
  changes. The device that was dropped is missing from the list the pass commits, so
  the stored key is gone after the pass, and passes that overlap read the store at
  different times.
\<close>

theorem key_pinned_at_check:
  assumes "run acts (t0, []) = (t, calls)"
  shows "(\<forall>u vs x. SetUserDevices u vs \<in> set (new_events t0 t) \<and> x \<in> set vs
            \<longrightarrow> (\<exists>m < length acts.
                  validating (acts ! m) (run (take m acts) (t0, [])) u x
                  \<and> pinned_against (cryptoStore (fst (run (take m acts) (t0, []))) u) x))
       \<and> (\<forall>i p rest u d dev ds vs existing.
            i < length calls \<and> pos (calls ! i) = AtDevice p rest u ((d, dev) # ds) vs
            \<and> find (\<lambda>x. device_id x = d) (cryptoStore t u) = Some existing
            \<and> keys existing (key_name DeviceKeyAlgorithm_Ed25119 d)
                 \<noteq> keys dev (key_name DeviceKeyAlgorithm_Ed25119 d)
            \<longrightarrow> (\<exists>w. perform (Resume i) (t, calls)
                      = (t\<lparr>trace := trace t @ [Warn w]\<rparr>,
                         calls[i := (calls ! i)\<lparr>pos := AtDevice p rest u ds vs\<rparr>])))"
proof (intro conjI allI impI)
  fix u vs x
  assume h: "SetUserDevices u vs \<in> set (new_events t0 t) \<and> x \<in> set vs"
  have "\<forall>k \<in> set ([] :: call list). \<forall>u vs. in_hand k = Some (u, vs)
          \<longrightarrow> (\<forall>x \<in> set vs. False)"
    by simp
  from run_commits_validated [OF assms this] h
  obtain m where m: "m < length acts" "validating (acts ! m) (run (take m acts) (t0, [])) u x"
    by blast
  obtain tm callsm where cfg: "run (take m acts) (t0, []) = (tm, callsm)"
    by (cases "run (take m acts) (t0, [])")
  with m(2) validating_pinned [of "acts ! m" tm callsm u x]
  have "pinned_against (cryptoStore (fst (run (take m acts) (t0, []))) u) x" by simp
  with m show "\<exists>m < length acts.
                  validating (acts ! m) (run (take m acts) (t0, [])) u x
                  \<and> pinned_against (cryptoStore (fst (run (take m acts) (t0, []))) u) x"
    by blast
next
  fix i p rest u d dev ds vs existing
  assume h: "i < length calls \<and> pos (calls ! i) = AtDevice p rest u ((d, dev) # ds) vs
            \<and> find (\<lambda>x. device_id x = d) (cryptoStore t u) = Some existing
            \<and> keys existing (key_name DeviceKeyAlgorithm_Ed25119 d)
                 \<noteq> keys dev (key_name DeviceKeyAlgorithm_Ed25119 d)"
  then obtain w where
    "check_device (call_client (calls ! i)) (cryptoStore t) u d dev = Inr (Ignored w)"
    using check_device_key_changed by blast
  with h have "perform (Resume i) (t, calls)
                      = (t\<lparr>trace := trace t @ [Warn w]\<rparr>,
                         calls[i := (calls ! i)\<lparr>pos := AtDevice p rest u ds vs\<rparr>])"
    by simp
  then show "\<exists>w. perform (Resume i) (t, calls)
                      = (t\<lparr>trace := trace t @ [Warn w]\<rparr>,
                         calls[i := (calls ! i)\<lparr>pos := AtDevice p rest u ds vs\<rparr>])"
    by blast
qed

text \<open>
  In \<^const>\<open>overlap_acts\<close> the last pass commits D1 with E2: it checked the claim after
  the pass before it had emptied Alice's list. That pass, checking the same claim while
  D1 was stored with E1, dropped it.
\<close>

theorem key_pinned_at_check_witness:
  "SetUserDevices alice [d1_e2]
     \<in> set (new_events (new_tracker (\<lambda>_. []))
          (fst (run overlap_acts (new_tracker (\<lambda>_. []), []))))
   \<and> (\<exists>m < length overlap_acts.
         validating (overlap_acts ! m) (run (take m overlap_acts) (new_tracker (\<lambda>_. []), []))
           alice d1_e2
       \<and> pinned_against
           (cryptoStore (fst (run (take m overlap_acts) (new_tracker (\<lambda>_. []), []))) alice)
           d1_e2)
   \<and> map (ed_of ''D1'')
        (cryptoStore (fst (run (take 10 overlap_acts) (new_tracker (\<lambda>_. []), []))) alice)
       = [Some ''E1'']
   \<and> pos (snd (run (take 10 overlap_acts) (new_tracker (\<lambda>_. []), [])) ! 1)
       = AtDevice 1 [] alice [(''D1'', d1_e2)] []
   \<and> (\<exists>w. perform (Resume 1) (run (take 10 overlap_acts) (new_tracker (\<lambda>_. []), []))
         = ((fst (run (take 10 overlap_acts) (new_tracker (\<lambda>_. []), [])))
              \<lparr>trace := trace (fst (run (take 10 overlap_acts) (new_tracker (\<lambda>_. []), [])))
                         @ [Warn w]\<rparr>,
            (snd (run (take 10 overlap_acts) (new_tracker (\<lambda>_. []), [])))
              [1 := (snd (run (take 10 overlap_acts) (new_tracker (\<lambda>_. []), [])) ! 1)
                      \<lparr>pos := AtDevice 1 [] alice [] []\<rparr>]))"
proof -
  let ?t0 = "new_tracker (\<lambda>_. [])"
  let ?end = "run overlap_acts (?t0, [])"
  let ?mid = "run (take 10 overlap_acts) (?t0, [])"
  have whole: "run overlap_acts (?t0, []) = (fst ?end, snd ?end)"
    by simp
  have part: "run (take 10 overlap_acts) (?t0, []) = (fst ?mid, snd ?mid)"
    by simp
  have ev: "SetUserDevices alice [d1_e2] \<in> set (new_events ?t0 (fst ?end))"
    by (simp add: fine_defs model_defs world_defs)
  have stored: "map (ed_of ''D1'') (cryptoStore (fst ?mid) alice) = [Some ''E1'']"
    by (simp add: fine_defs model_defs world_defs)
  have at: "pos (snd ?mid ! 1) = AtDevice 1 [] alice [(''D1'', d1_e2)] []"
    by (simp add: fine_defs model_defs world_defs)
  have len: "1 < length (snd ?mid)"
    by (simp add: fine_defs model_defs world_defs)
  have found: "find (\<lambda>x. device_id x = ''D1'') (cryptoStore (fst ?mid) alice) = Some d1_e1"
    by (simp add: fine_defs model_defs world_defs)
  have differ: "keys d1_e1 (key_name DeviceKeyAlgorithm_Ed25119 ''D1'')
                  \<noteq> keys d1_e2 (key_name DeviceKeyAlgorithm_Ed25119 ''D1'')"
    by (simp add: model_defs world_defs)
  from key_pinned_at_check [OF whole]
  have "\<forall>u vs x. SetUserDevices u vs \<in> set (new_events ?t0 (fst ?end)) \<and> x \<in> set vs
            \<longrightarrow> (\<exists>m < length overlap_acts.
                  validating (overlap_acts ! m) (run (take m overlap_acts) (?t0, [])) u x
                  \<and> pinned_against
                      (cryptoStore (fst (run (take m overlap_acts) (?t0, []))) u) x)"
    by (rule conjunct1)
  then have "SetUserDevices alice [d1_e2] \<in> set (new_events ?t0 (fst ?end))
               \<and> d1_e2 \<in> set [d1_e2]
            \<longrightarrow> (\<exists>m < length overlap_acts.
                  validating (overlap_acts ! m) (run (take m overlap_acts) (?t0, [])) alice d1_e2
                  \<and> pinned_against
                      (cryptoStore (fst (run (take m overlap_acts) (?t0, []))) alice) d1_e2)"
    by blast
  moreover from ev have "SetUserDevices alice [d1_e2] \<in> set (new_events ?t0 (fst ?end))
               \<and> d1_e2 \<in> set [d1_e2]"
    by simp
  ultimately have checked: "\<exists>m < length overlap_acts.
                  validating (overlap_acts ! m) (run (take m overlap_acts) (?t0, [])) alice d1_e2
                  \<and> pinned_against
                      (cryptoStore (fst (run (take m overlap_acts) (?t0, []))) alice) d1_e2"
    by (rule mp)
  from key_pinned_at_check [OF part]
  have "\<forall>i p rest u d dev ds vs existing.
            i < length (snd ?mid) \<and> pos (snd ?mid ! i) = AtDevice p rest u ((d, dev) # ds) vs
            \<and> find (\<lambda>x. device_id x = d) (cryptoStore (fst ?mid) u) = Some existing
            \<and> keys existing (key_name DeviceKeyAlgorithm_Ed25119 d)
                 \<noteq> keys dev (key_name DeviceKeyAlgorithm_Ed25119 d)
            \<longrightarrow> (\<exists>w. perform (Resume i) (fst ?mid, snd ?mid)
                      = ((fst ?mid)\<lparr>trace := trace (fst ?mid) @ [Warn w]\<rparr>,
                         (snd ?mid)[i := (snd ?mid ! i)\<lparr>pos := AtDevice p rest u ds vs\<rparr>]))"
    by (rule conjunct2)
  then have "1 < length (snd ?mid) \<and> pos (snd ?mid ! 1) = AtDevice 1 [] alice [(''D1'', d1_e2)] []
            \<and> find (\<lambda>x. device_id x = ''D1'') (cryptoStore (fst ?mid) alice) = Some d1_e1
            \<and> keys d1_e1 (key_name DeviceKeyAlgorithm_Ed25119 ''D1'')
                 \<noteq> keys d1_e2 (key_name DeviceKeyAlgorithm_Ed25119 ''D1'')
            \<longrightarrow> (\<exists>w. perform (Resume 1) (fst ?mid, snd ?mid)
                      = ((fst ?mid)\<lparr>trace := trace (fst ?mid) @ [Warn w]\<rparr>,
                         (snd ?mid)[1 := (snd ?mid ! 1)\<lparr>pos := AtDevice 1 [] alice [] []\<rparr>]))"
    by blast
  moreover from len at found differ
  have "1 < length (snd ?mid) \<and> pos (snd ?mid ! 1) = AtDevice 1 [] alice [(''D1'', d1_e2)] []
            \<and> find (\<lambda>x. device_id x = ''D1'') (cryptoStore (fst ?mid) alice) = Some d1_e1
            \<and> keys d1_e1 (key_name DeviceKeyAlgorithm_Ed25119 ''D1'')
                 \<noteq> keys d1_e2 (key_name DeviceKeyAlgorithm_Ed25119 ''D1'')"
    by (intro conjI)
  ultimately have "\<exists>w. perform (Resume 1) (fst ?mid, snd ?mid)
                      = ((fst ?mid)\<lparr>trace := trace (fst ?mid) @ [Warn w]\<rparr>,
                         (snd ?mid)[1 := (snd ?mid ! 1)\<lparr>pos := AtDevice 1 [] alice [] []\<rparr>])"
    by (rule mp)
  then have dropped: "\<exists>w. perform (Resume 1) ?mid
                      = ((fst ?mid)\<lparr>trace := trace (fst ?mid) @ [Warn w]\<rparr>,
                         (snd ?mid)[1 := (snd ?mid ! 1)\<lparr>pos := AtDevice 1 [] alice [] []\<rparr>])"
    by (simp only: prod.collapse)
  from ev checked stored at dropped show ?thesis by (intro conjI)
qed

text \<open>
  C1 as stated fails: the pin does not outlive the rejection. The first pass commits D1
  with E1. The second pass rejects D1 with E2 and, the commit being a full replacement,
  leaves Alice's list empty. The third pass finds no stored D1, so the same claim is
  accepted as on first use: D1 is now committed with E2.
\<close>

theorem key_pin_lost_counterexample:
  "map device_id (cryptoStore first_pass alice) = [''D1'']
   \<and> map (ed_of ''D1'') (cryptoStore first_pass alice) = [Some ''E1'']
   \<and> cryptoStore second_pass alice = []
   \<and> map device_id (cryptoStore third_pass alice) = [''D1'']
   \<and> map (ed_of ''D1'') (cryptoStore third_pass alice) = [Some ''E2'']"
  by (simp add: pass_defs model_defs world_defs)

text \<open>
  C2. What a failing directory fetch does. The claim holds for the store: no stored
  device list changes. It fails for the handle: the promise registered under every
  requested id stays pending, the call that waits for it never resumes, and the error
  ends as a rejection of the executor's own promise, which nothing holds. No waiter is
  ever told of the failure.
\<close>

theorem fetch_failure_never_settles:
  assumes "getUserDevices c userIds = Inl e"
    and "await_all t (existingPromises t userIds) = Returned"
    and "updateUsersDeviceLists c t userIds = (t', out)"
  shows "out = Suspended
       \<and> promises t' (next_promise t) = Pending
       \<and> (\<forall>u \<in> set userIds. deviceListUpdates t' u = Some (next_promise t))
       \<and> cryptoStore t' = cryptoStore t
       \<and> trace t' = trace t @ FetchIssued userIds
           # map (\<lambda>u. Registered u (next_promise t)) userIds @ [UnhandledRejection e]"
proof -
  from update_effects [OF assms(3)] assms(2) have rp: "run_pass c t userIds = (t', out)"
    by blast
  from rp obtain r :: "error + unit" and log
    where reg: "deviceListUpdates t'
                  = fold (\<lambda>u m. m(u \<mapsto> next_promise t)) userIds (deviceListUpdates t)"
      and eff: "case getUserDevices c userIds of
           Inl e \<Rightarrow> r = Inl e \<and> log = [] \<and> cryptoStore t' = cryptoStore t
         | Inr resp \<Rightarrow> process_users c (cryptoStore t) resp [] = (r, cryptoStore t', log)"
      and tr: "trace t' = trace t @ FetchIssued userIds
              # map (\<lambda>u. Registered u (next_promise t)) userIds
              @ log @ [case r of Inl e \<Rightarrow> UnhandledRejection e | Inr u \<Rightarrow> Resolved (next_promise t)]"
      and pr: "promises t' = (promises t)(next_promise t :=
           (case r of Inl e \<Rightarrow> Pending | Inr u \<Rightarrow> Fulfilled))"
      and out: "out = (case r of Inl e \<Rightarrow> Suspended | Inr u \<Rightarrow> Returned)"
    by (rule run_pass_effects) blast
  from eff assms(1) have r: "r = Inl e" and log: "log = []"
    and store: "cryptoStore t' = cryptoStore t"
    by simp_all
  have installed: "\<forall>u \<in> set userIds. deviceListUpdates t' u = Some (next_promise t)"
    by (simp add: reg fold_register)
  from r log store installed tr pr out show ?thesis by simp
qed

theorem fetch_failure_never_settles_witness:
  "getUserDevices offline [alice] = Inl (Error ''timeout'')
   \<and> snd (updateUsersDeviceLists offline trusting_d1 [alice]) = Suspended
   \<and> deviceListUpdates after_failed_pass alice = Some 0
   \<and> promises after_failed_pass 0 = Pending
   \<and> cryptoStore after_failed_pass = cryptoStore trusting_d1
   \<and> trace after_failed_pass
       = [FetchIssued [alice], Registered alice 0, UnhandledRejection (Error ''timeout'')]"
proof -
  have fetch: "getUserDevices offline [alice] = Inl (Error ''timeout'')"
    by (simp add: offline_def)
  have wait: "await_all trusting_d1 (existingPromises trusting_d1 [alice]) = Returned"
    by (simp add: model_defs world_defs)
  have np: "next_promise trusting_d1 = 0" and tr0: "trace trusting_d1 = []"
    by (simp_all add: trusting_d1_def new_tracker_def)
  have run: "updateUsersDeviceLists offline trusting_d1 [alice]
      = (after_failed_pass, snd (updateUsersDeviceLists offline trusting_d1 [alice]))"
    by (simp add: after_failed_pass_def)
  have all: "snd (updateUsersDeviceLists offline trusting_d1 [alice]) = Suspended
       \<and> promises after_failed_pass (next_promise trusting_d1) = Pending
       \<and> (\<forall>u \<in> set [alice]. deviceListUpdates after_failed_pass u = Some (next_promise trusting_d1))
       \<and> cryptoStore after_failed_pass = cryptoStore trusting_d1
       \<and> trace after_failed_pass = trace trusting_d1 @ FetchIssued [alice]
           # map (\<lambda>u. Registered u (next_promise trusting_d1)) [alice]
           @ [UnhandledRejection (Error ''timeout'')]"
    by (rule fetch_failure_never_settles [OF fetch wait run])
  then have hung: "snd (updateUsersDeviceLists offline trusting_d1 [alice]) = Suspended"
    and pend: "promises after_failed_pass 0 = Pending"
    and reg: "deviceListUpdates after_failed_pass alice = Some 0"
    and store: "cryptoStore after_failed_pass = cryptoStore trusting_d1"
    and tr: "trace after_failed_pass
       = [FetchIssued [alice], Registered alice 0, UnhandledRejection (Error ''timeout'')]"
    by (simp_all add: np tr0)
  from fetch hung reg pend store tr show ?thesis by (intro conjI)
qed



text \<open>
  C4. What the wait does after a failed pass. No promise of the tracker being rejected
  (none ever is, as shown above), once a pass over some ids has failed at the fetch,
  every later call that requests one of these ids, with any client, stays suspended at
  its wait and leaves the tracker as it is: it registers nothing and fetches nothing.
\<close>

theorem failed_pass_blocks_later_calls:
  assumes "getUserDevices c userIds = Inl e"
    and "await_all t (existingPromises t userIds) = Returned"
    and "\<forall>q e'. promises t q \<noteq> Rejected e'"
    and "set later \<inter> set userIds \<noteq> {}"
  shows "updateUsersDeviceLists c' (fst (updateUsersDeviceLists c t userIds)) later
           = (fst (updateUsersDeviceLists c t userIds), Suspended)"
proof -
  let ?t1 = "fst (updateUsersDeviceLists c t userIds)"
  let ?p = "next_promise t"
  have run: "updateUsersDeviceLists c t userIds = (?t1, snd (updateUsersDeviceLists c t userIds))"
    by simp
  from update_effects [OF run] assms(2)
  have rp: "run_pass c t userIds = (?t1, snd (updateUsersDeviceLists c t userIds))"
    by blast
  from rp obtain r :: "error + unit" and log
    where reg: "deviceListUpdates ?t1
                  = fold (\<lambda>u m. m(u \<mapsto> ?p)) userIds (deviceListUpdates t)"
      and eff: "case getUserDevices c userIds of
           Inl e \<Rightarrow> r = Inl e \<and> log = [] \<and> cryptoStore ?t1 = cryptoStore t
         | Inr resp \<Rightarrow> process_users c (cryptoStore t) resp [] = (r, cryptoStore ?t1, log)"
      and pr: "promises ?t1 = (promises t)(?p :=
           (case r of Inl e \<Rightarrow> Pending | Inr u \<Rightarrow> Fulfilled))"
    by (rule run_pass_effects) blast
  from eff assms(1) have r: "r = Inl e" by simp
  with pr have pend: "promises ?t1 ?p = Pending" by simp
  from pr r assms(3) have norej: "\<forall>q e'. promises ?t1 q \<noteq> Rejected e'" by simp
  from assms(4) obtain u where "u \<in> set later" and "u \<in> set userIds" by blast
  then have mem: "?p \<in> set (existingPromises ?t1 later)"
    by (auto simp: existingPromises_member reg fold_register)
  then have nonempty: "length (existingPromises ?t1 later) > 0" by (cases "existingPromises ?t1 later") auto
  have "await_all ?t1 (existingPromises ?t1 later) = Suspended"
    using mem pend norej by (intro await_all_Suspended) auto
  with nonempty show ?thesis
    by (simp add: updateUsersDeviceLists_def Let_def)
qed

theorem failed_pass_blocks_later_calls_witness:
  "getUserDevices offline [alice] = Inl (Error ''timeout'')
   \<and> getUserDevices (directory [(alice, [(''D1'', d1_e1)])]) [alice, bob]
       = Inr [(alice, [(''D1'', d1_e1)])]
   \<and> updateUsersDeviceLists (directory [(alice, [(''D1'', d1_e1)])]) after_failed_pass [alice, bob]
       = (after_failed_pass, Suspended)"
proof -
  have fetch: "getUserDevices offline [alice] = Inl (Error ''timeout'')"
    by (simp add: offline_def)
  have ok: "getUserDevices (directory [(alice, [(''D1'', d1_e1)])]) [alice, bob]
       = Inr [(alice, [(''D1'', d1_e1)])]"
    by (simp add: directory_def)
  have wait: "await_all trusting_d1 (existingPromises trusting_d1 [alice]) = Returned"
    by (simp add: model_defs world_defs)
  have norej: "\<forall>q e'. promises trusting_d1 q \<noteq> Rejected e'"
    by (simp add: trusting_d1_def new_tracker_def)
  have overlap: "set [alice, bob] \<inter> set [alice] \<noteq> {}" by simp
  have "updateUsersDeviceLists (directory [(alice, [(''D1'', d1_e1)])])
          (fst (updateUsersDeviceLists offline trusting_d1 [alice])) [alice, bob]
        = (fst (updateUsersDeviceLists offline trusting_d1 [alice]), Suspended)"
    by (rule failed_pass_blocks_later_calls [OF fetch wait norej overlap])
  then have "updateUsersDeviceLists (directory [(alice, [(''D1'', d1_e1)])]) after_failed_pass [alice, bob]
       = (after_failed_pass, Suspended)"
    by (simp only: after_failed_pass_def)
  with fetch ok show ?thesis by (intro conjI)
qed

text \<open>
  C5, as amended. Registration directly follows the fetch call. Take any sequence of
  calls and steps from a new tracker, and a step in which a fetch is called. The
  effects of that step are the call of the fetch followed by the assignment of one new
  promise to every requested user id, in one step, so that no other call runs between
  the two; the promise is pending, no user was registered under it before, and the
  store is untouched. Afterwards, for every requested id, the registry holds this
  promise until another call registers its own under the same id; and a caller that
  requests an id still registered under this promise waits for it.

  A later caller does not always wait for this pass: see \<open>registration_replaced\<close>,
  where the entry is replaced while the pass is still running.
\<close>

theorem registration_follows_fetch_call:
  assumes "run before (new_tracker store, []) = (t, calls)"
    and "perform a (t, calls) = (t1, calls1)"
    and "FetchIssued us \<in> set (new_events t t1)"
    and "run after (t1, calls1) = (t2, calls2)"
  shows "new_events t t1 = FetchIssued us # map (\<lambda>u. Registered u (next_promise t)) us
       \<and> (\<forall>u. deviceListUpdates t u \<noteq> Some (next_promise t))
       \<and> promises t1 (next_promise t) = Pending
       \<and> (\<forall>u \<in> set us. deviceListUpdates t1 u = Some (next_promise t))
       \<and> cryptoStore t1 = cryptoStore t
       \<and> (\<forall>u \<in> set us. deviceListUpdates t2 u = Some (next_promise t)
             \<or> (\<exists>q. Registered u q \<in> set (new_events t1 t2)))
       \<and> (\<forall>c later u. u \<in> set us \<and> u \<in> set later
               \<and> deviceListUpdates t2 u = Some (next_promise t)
             \<longrightarrow> (\<exists>ps. pos (snd (call_updateUsersDeviceLists c t2 later)) = AtWait ps
                    \<and> next_promise t \<in> set ps))"
proof -
  let ?p = "next_promise t"
  have sp: "start_pass t us = (t1, ?p)"
    using perform_fetch [OF assms(2,3)] .
  note f = start_pass_fields [OF sp]
  have events: "new_events t t1 = FetchIssued us # map (\<lambda>u. Registered u ?p) us"
    using start_pass_events [OF sp] .
  have "\<forall>u q. deviceListUpdates (new_tracker store) u = Some q \<longrightarrow> q < next_promise (new_tracker store)"
    by (simp add: new_tracker_def)
  from run_fresh [OF assms(1) this]
  have fresh: "\<forall>u. deviceListUpdates t u \<noteq> Some ?p" by fastforce
  have pending: "promises t1 ?p = Pending" using f by simp
  have installed: "\<forall>u \<in> set us. deviceListUpdates t1 u = Some ?p"
    using f by (simp add: fold_register)
  have store: "cryptoStore t1 = cryptoStore t" using f by simp
  have kept: "\<forall>u \<in> set us. deviceListUpdates t2 u = Some ?p
             \<or> (\<exists>q. Registered u q \<in> set (new_events t1 t2))"
  proof
    fix u assume "u \<in> set us"
    with installed run_registry [OF assms(4), where u = u]
    show "deviceListUpdates t2 u = Some ?p \<or> (\<exists>q. Registered u q \<in> set (new_events t1 t2))"
      by auto
  qed
  have waits: "\<forall>c later u. u \<in> set us \<and> u \<in> set later \<and> deviceListUpdates t2 u = Some ?p
             \<longrightarrow> (\<exists>ps. pos (snd (call_updateUsersDeviceLists c t2 later)) = AtWait ps \<and> ?p \<in> set ps)"
  proof (intro allI impI)
    fix c later u
    assume h: "u \<in> set us \<and> u \<in> set later \<and> deviceListUpdates t2 u = Some ?p"
    then have mem: "?p \<in> set (existingPromises t2 later)"
      by (auto simp: existingPromises_member)
    then have "existingPromises t2 later \<noteq> []" by auto
    then have "pos (snd (call_updateUsersDeviceLists c t2 later)) = AtWait (existingPromises t2 later)"
      by (simp add: call_updateUsersDeviceLists_def Let_def)
    with mem show "\<exists>ps. pos (snd (call_updateUsersDeviceLists c t2 later)) = AtWait ps \<and> ?p \<in> set ps"
      by blast
  qed
  from events fresh pending installed store kept waits show ?thesis by blast
qed

text \<open>
  A call for Alice and Bob on a new tracker: its first step calls the fetch and
  registers both under the promise 0; once the response is there, a call for Bob
  still waits for the promise 0.
\<close>

theorem registration_follows_fetch_call_witness:
  "new_events (new_tracker (\<lambda>_. []))
      (fst (perform (Call (directory [(alice, [(''D1'', d1_e1)]), (bob, [(''B1'', b1)])])
                      [alice, bob]) (new_tracker (\<lambda>_. []), [])))
     = [FetchIssued [alice, bob], Registered alice 0, Registered bob 0]
   \<and> deviceListUpdates (fst (run [Resume 0]
        (perform (Call (directory [(alice, [(''D1'', d1_e1)]), (bob, [(''B1'', b1)])])
                   [alice, bob]) (new_tracker (\<lambda>_. []), [])))) bob = Some 0
   \<and> (\<exists>ps. pos (snd (call_updateUsersDeviceLists
                (directory [(bob, [(''B1'', b1)])])
                (fst (run [Resume 0]
                   (perform (Call (directory [(alice, [(''D1'', d1_e1)]), (bob, [(''B1'', b1)])])
                      [alice, bob]) (new_tracker (\<lambda>_. []), []))))
                [bob])) = AtWait ps
           \<and> 0 \<in> set ps)"
proof -
  let ?c = "directory [(alice, [(''D1'', d1_e1)]), (bob, [(''B1'', b1)])]"
  let ?t0 = "new_tracker (\<lambda>_. [])"
  let ?cfg1 = "perform (Call ?c [alice, bob]) (?t0, [])"
  let ?cfg2 = "run [Resume 0] ?cfg1"
  have r0: "run [] (?t0, []) = (?t0, [])"
    by (simp add: run_def)
  have p: "perform (Call ?c [alice, bob]) (?t0, []) = (fst ?cfg1, snd ?cfg1)"
    by simp
  have f: "FetchIssued [alice, bob] \<in> set (new_events ?t0 (fst ?cfg1))"
    by (simp add: step_defs model_defs)
  have r2: "run [Resume 0] (fst ?cfg1, snd ?cfg1) = (fst ?cfg2, snd ?cfg2)"
    by simp
  have np: "next_promise ?t0 = 0"
    by (simp add: new_tracker_def)
  have reg: "deviceListUpdates (fst ?cfg2) bob = Some 0"
    by (simp add: step_defs model_defs world_defs)
  note T = registration_follows_fetch_call [OF r0 p f r2]
  from T have "new_events ?t0 (fst ?cfg1)
      = FetchIssued [alice, bob] # map (\<lambda>u. Registered u (next_promise ?t0)) [alice, bob]"
    by (rule conjunct1)
  then have ev: "new_events ?t0 (fst ?cfg1)
      = [FetchIssued [alice, bob], Registered alice 0, Registered bob 0]"
    by (simp only: np list.map)
  from T have "\<forall>c later u. u \<in> set [alice, bob] \<and> u \<in> set later
              \<and> deviceListUpdates (fst ?cfg2) u = Some (next_promise ?t0)
            \<longrightarrow> (\<exists>ps. pos (snd (call_updateUsersDeviceLists c (fst ?cfg2) later)) = AtWait ps
                    \<and> next_promise ?t0 \<in> set ps)"
    by (rule conjunct2 [THEN conjunct2, THEN conjunct2, THEN conjunct2, THEN conjunct2,
          THEN conjunct2])
  then have "bob \<in> set [alice, bob] \<and> bob \<in> set [bob]
              \<and> deviceListUpdates (fst ?cfg2) bob = Some (next_promise ?t0)
            \<longrightarrow> (\<exists>ps. pos (snd (call_updateUsersDeviceLists (directory [(bob, [(''B1'', b1)])])
                             (fst ?cfg2) [bob])) = AtWait ps
                    \<and> next_promise ?t0 \<in> set ps)"
    by blast
  moreover have "bob \<in> set [alice, bob] \<and> bob \<in> set [bob]
              \<and> deviceListUpdates (fst ?cfg2) bob = Some (next_promise ?t0)"
    using reg np by simp
  ultimately have "\<exists>ps. pos (snd (call_updateUsersDeviceLists (directory [(bob, [(''B1'', b1)])])
                             (fst ?cfg2) [bob])) = AtWait ps
                    \<and> next_promise ?t0 \<in> set ps"
    by (rule mp)
  then have later: "\<exists>ps. pos (snd (call_updateUsersDeviceLists (directory [(bob, [(''B1'', b1)])])
                             (fst ?cfg2) [bob])) = AtWait ps
                    \<and> 0 \<in> set ps"
    by (simp only: np)
  from ev reg later show ?thesis by (intro conjI)
qed

text \<open>
  C5 as stated fails: the fetch is called before the handle is installed. On a new
  tracker the first effect of a call is the fetch and the second is the registration;
  before the call Alice has no entry in the registry.
\<close>

theorem fetch_precedes_registration_counterexample:
  "trace (fst (updateUsersDeviceLists (directory [(alice, [(''D1'', d1_e1)])])
      (new_tracker (\<lambda>_. [])) [alice])) ! 0 = FetchIssued [alice]
   \<and> trace (fst (updateUsersDeviceLists (directory [(alice, [(''D1'', d1_e1)])])
      (new_tracker (\<lambda>_. [])) [alice])) ! 1 = Registered alice 0
   \<and> deviceListUpdates (new_tracker (\<lambda>_. [])) alice = None"
  by (simp add: model_defs world_defs)

text \<open>
  C6. Identity-consistency filter, for every outcome of the call. A claim whose own
  \<^verbatim>\<open>user_id\<close> or \<^verbatim>\<open>device_id\<close> differs from the keys the response lists it under
  is ignored by the check with the warning of line 50, and is not among the validated
  claims, against any store, whatever its keys and signatures are and whatever the
  verifier would do. The call leaves the user's stored list as it was or replaces it by
  the devices of the validated claims; every write it makes for the user is that list
  and comes with the warning logged; every device of that list carries the ids it is
  listed under. When the call returns, the write has been made.

  The same among calls that overlap: a call that reaches this claim, in any state,
  logs the warning, leaves its array \<^verbatim>\<open>validated\<close> as it was and moves on to the
  next device; and in whatever order the steps of any calls are taken, every device
  written to the store for a user carries that user's id.
\<close>

theorem identity_mismatch_excluded:
  assumes "updateUsersDeviceLists c t userIds = (t', out)"
    and "getUserDevices c userIds = Inr resp"
    and "distinct (map fst resp)"
    and "(u, devs) \<in> set resp"
    and "(d, dev) \<in> set devs"
    and "user_id dev \<noteq> u \<or> device_id dev \<noteq> d"
  shows "(\<forall>store. check_device c store u d dev
            = Inr (Ignored (ServerLying u d (user_id dev) (device_id dev))))
       \<and> (\<forall>store. (d, dev) \<notin> set (validated_claims c store u devs))
       \<and> (cryptoStore t' u = cryptoStore t u
          \<or> cryptoStore t' u = map snd (validated_claims c (cryptoStore t) u devs))
       \<and> (\<forall>vs. SetUserDevices u vs \<in> set (new_events t t')
            \<longrightarrow> vs = map snd (validated_claims c (cryptoStore t) u devs)
                \<and> Warn (ServerLying u d (user_id dev) (device_id dev)) \<in> set (new_events t t'))
       \<and> (\<forall>x \<in> set (map snd (validated_claims c (cryptoStore t) u devs)).
             user_id x = u \<and> (device_id x, x) \<in> set devs)
       \<and> (out = Returned
            \<longrightarrow> cryptoStore t' u = map snd (validated_claims c (cryptoStore t) u devs)
                \<and> SetUserDevices u (map snd (validated_claims c (cryptoStore t) u devs))
                     \<in> set (new_events t t'))
       \<and> (\<forall>s calls i p rest ds vs.
             i < length calls \<and> pos (calls ! i) = AtDevice p rest u ((d, dev) # ds) vs
             \<longrightarrow> perform (Resume i) (s, calls)
                   = (s\<lparr>trace := trace s
                         @ [Warn (ServerLying u d (user_id dev) (device_id dev))]\<rparr>,
                      calls[i := (calls ! i)\<lparr>pos := AtDevice p rest u ds vs\<rparr>]))
       \<and> (\<forall>s acts vs x.
             SetUserDevices u vs \<in> set (new_events s (fst (run acts (s, [])))) \<and> x \<in> set vs
             \<longrightarrow> user_id x = u)"
proof -
  let ?V = "map snd (validated_claims c (cryptoStore t) u devs)"
  let ?w = "ServerLying u d (user_id dev) (device_id dev)"
  have c7: "\<forall>s calls i p rest ds vs.
             i < length calls \<and> pos (calls ! i) = AtDevice p rest u ((d, dev) # ds) vs
             \<longrightarrow> perform (Resume i) (s, calls)
                   = (s\<lparr>trace := trace s @ [Warn ?w]\<rparr>,
                      calls[i := (calls ! i)\<lparr>pos := AtDevice p rest u ds vs\<rparr>])"
    using assms(6) by (simp add: check_device_def)
  have c8: "\<forall>s acts vs x.
             SetUserDevices u vs \<in> set (new_events s (fst (run acts (s, [])))) \<and> x \<in> set vs
             \<longrightarrow> user_id x = u"
    using written_devices_sound(1) by blast
  have verdict: "check_device c store u d dev = Inr (Ignored ?w)" for store
    using assms(6) by (simp add: check_device_def)
  then have c1: "\<forall>store. check_device c store u d dev = Inr (Ignored ?w)" by blast
  have c2: "\<forall>store. (d, dev) \<notin> set (validated_claims c store u devs)"
    using verdict by (simp add: in_validated_claims)
  have c5: "\<forall>x \<in> set ?V. user_id x = u \<and> (device_id x, x) \<in> set devs"
    using validated_claims_sound(1,2) by blast
  from update_commits [OF assms(1-4)]
  consider (kept) "cryptoStore t' u = cryptoStore t u"
          "\<forall>vs. SetUserDevices u vs \<notin> set (new_events t t')" "out \<noteq> Returned"
    | (written) "cryptoStore t' u = ?V"
          "\<forall>vs. SetUserDevices u vs \<in> set (new_events t t') \<longrightarrow> vs = ?V"
          "SetUserDevices u ?V \<in> set (new_events t t')"
          "\<forall>d dev w. (d, dev) \<in> set devs
                  \<and> check_device c (cryptoStore t) u d dev = Inr (Ignored w)
                \<longrightarrow> Warn w \<in> set (new_events t t')"
    by fastforce
  then have rest: "(cryptoStore t' u = cryptoStore t u \<or> cryptoStore t' u = ?V)
       \<and> (\<forall>vs. SetUserDevices u vs \<in> set (new_events t t')
            \<longrightarrow> vs = ?V \<and> Warn ?w \<in> set (new_events t t'))
       \<and> (out = Returned
            \<longrightarrow> cryptoStore t' u = ?V \<and> SetUserDevices u ?V \<in> set (new_events t t'))"
  proof cases
    case kept
    then show ?thesis by blast
  next
    case written
    from written(4) assms(5) verdict have "Warn ?w \<in> set (new_events t t')" by blast
    with written(1-3) show ?thesis by blast
  qed
  then have r3: "cryptoStore t' u = cryptoStore t u \<or> cryptoStore t' u = ?V"
    and r4: "\<forall>vs. SetUserDevices u vs \<in> set (new_events t t')
            \<longrightarrow> vs = ?V \<and> Warn ?w \<in> set (new_events t t')"
    and r6: "out = Returned
            \<longrightarrow> cryptoStore t' u = ?V \<and> SetUserDevices u ?V \<in> set (new_events t t')"
    by (rule conjunct1, rule conjunct2 [THEN conjunct1], rule conjunct2 [THEN conjunct2])
  from c1 c2 r3 r4 c5 r6 c7 c8 show ?thesis by (intro conjI)
qed

text \<open>
  A pass that does not complete: Alice's only claim is listed under D1 and says D2, and
  the verifier throws on Bob's device. Alice's list is committed empty with the warning
  logged, and the call never returns.
\<close>

theorem identity_mismatch_excluded_witness:
  "snd (updateUsersDeviceLists
          (brittle_directory [(alice, [(''D1'', d2_e3)]), (bob, [(''B1'', b1)])] ''B1'')
          (new_tracker (\<lambda>_. [])) [alice, bob]) = Suspended
   \<and> device_id d2_e3 \<noteq> ''D1''
   \<and> SetUserDevices alice []
        \<in> set (new_events (new_tracker (\<lambda>_. []))
             (fst (updateUsersDeviceLists
                (brittle_directory [(alice, [(''D1'', d2_e3)]), (bob, [(''B1'', b1)])] ''B1'')
                (new_tracker (\<lambda>_. [])) [alice, bob])))
   \<and> Warn (ServerLying alice ''D1'' alice ''D2'')
        \<in> set (new_events (new_tracker (\<lambda>_. []))
             (fst (updateUsersDeviceLists
                (brittle_directory [(alice, [(''D1'', d2_e3)]), (bob, [(''B1'', b1)])] ''B1'')
                (new_tracker (\<lambda>_. [])) [alice, bob])))"
proof -
  let ?resp = "[(alice, [(''D1'', d2_e3)]), (bob, [(''B1'', b1)])]"
  let ?c = "brittle_directory ?resp ''B1''"
  let ?t = "new_tracker (\<lambda>_. [])"
  let ?t' = "fst (updateUsersDeviceLists ?c ?t [alice, bob])"
  have out: "snd (updateUsersDeviceLists ?c ?t [alice, bob]) = Suspended"
    by (simp add: model_defs world_defs brittle_directory_def)
  then have run: "updateUsersDeviceLists ?c ?t [alice, bob] = (?t', Suspended)"
    by (simp add: prod_eq_iff)
  have fetch: "getUserDevices ?c [alice, bob] = Inr ?resp"
    by (simp add: brittle_directory_def)
  have dist: "distinct (map fst ?resp)"
    by (simp add: alice_def bob_def)
  have user: "(alice, [(''D1'', d2_e3)]) \<in> set ?resp"
    by simp
  have dev: "(''D1'', d2_e3) \<in> set [(''D1'', d2_e3)]"
    by simp
  have ne: "device_id d2_e3 \<noteq> ''D1''"
    by (simp add: world_defs)
  then have wrong: "user_id d2_e3 \<noteq> alice \<or> device_id d2_e3 \<noteq> ''D1''"
    by (rule disjI2)
  have ids: "user_id d2_e3 = alice" "device_id d2_e3 = ''D2''"
    by (simp_all add: world_defs)
  have ev: "SetUserDevices alice [] \<in> set (new_events ?t ?t')"
    by (simp add: new_events_def model_defs world_defs brittle_directory_def)
  note T = identity_mismatch_excluded [OF run fetch dist user dev wrong]
  from T have "\<forall>vs. SetUserDevices alice vs \<in> set (new_events ?t ?t')
            \<longrightarrow> vs = map snd (validated_claims ?c (cryptoStore ?t) alice [(''D1'', d2_e3)])
                \<and> Warn (ServerLying alice ''D1'' (user_id d2_e3) (device_id d2_e3))
                     \<in> set (new_events ?t ?t')"
    by (rule conjunct2 [THEN conjunct2, THEN conjunct2, THEN conjunct1])
  with ev have "Warn (ServerLying alice ''D1'' (user_id d2_e3) (device_id d2_e3))
                     \<in> set (new_events ?t ?t')"
    by blast
  then have "Warn (ServerLying alice ''D1'' alice ''D2'') \<in> set (new_events ?t ?t')"
    by (simp only: ids)
  with out ne ev show ?thesis by (intro conjI)
qed

text \<open>
  C7. Key-completeness filter, for every outcome of the call. A claim that has no
  Ed25519 key or no Curve25519 key (or an empty one) under the key names of the device
  id it is listed under is ignored by the check, against any store and without the
  verifier being asked, and is not among the validated claims. The call leaves the
  user's stored list as it was or replaces it by the devices of the validated claims;
  every write it makes for the user is that list, and every device of that list has both
  keys under the key names of its own device id. When the call returns, the write has
  been made.

  The same among calls that overlap: a call that reaches this claim, in any state,
  logs a warning, leaves its array \<^verbatim>\<open>validated\<close> as it was and moves on to the
  next device; and in whatever order the steps of any calls are taken, every device
  written to the store has both keys.
\<close>

theorem missing_key_excluded:
  assumes "updateUsersDeviceLists c t userIds = (t', out)"
    and "getUserDevices c userIds = Inr resp"
    and "distinct (map fst resp)"
    and "(u, devs) \<in> set resp"
    and "(d, dev) \<in> set devs"
    and "\<not> truthy (keys dev (key_name DeviceKeyAlgorithm_Ed25119 d))
         \<or> \<not> truthy (keys dev (key_name DeviceKeyAlgorithm_Curve25519 d))"
  shows "(\<forall>store. check_device c store u d dev = Inr (Ignored (MissingKeys u d))
            \<or> check_device c store u d dev
                 = Inr (Ignored (ServerLying u d (user_id dev) (device_id dev))))
       \<and> (\<forall>store. (d, dev) \<notin> set (validated_claims c store u devs))
       \<and> (cryptoStore t' u = cryptoStore t u
          \<or> cryptoStore t' u = map snd (validated_claims c (cryptoStore t) u devs))
       \<and> (\<forall>vs. SetUserDevices u vs \<in> set (new_events t t')
            \<longrightarrow> vs = map snd (validated_claims c (cryptoStore t) u devs))
       \<and> (\<forall>x \<in> set (map snd (validated_claims c (cryptoStore t) u devs)).
             truthy (keys x (key_name DeviceKeyAlgorithm_Ed25119 (device_id x)))
           \<and> truthy (keys x (key_name DeviceKeyAlgorithm_Curve25519 (device_id x))))
       \<and> (out = Returned
            \<longrightarrow> cryptoStore t' u = map snd (validated_claims c (cryptoStore t) u devs)
                \<and> SetUserDevices u (map snd (validated_claims c (cryptoStore t) u devs))
                     \<in> set (new_events t t'))
       \<and> (\<forall>s calls i p rest ds vs.
             i < length calls \<and> pos (calls ! i) = AtDevice p rest u ((d, dev) # ds) vs
             \<longrightarrow> (\<exists>w. perform (Resume i) (s, calls)
                        = (s\<lparr>trace := trace s @ [Warn w]\<rparr>,
                           calls[i := (calls ! i)\<lparr>pos := AtDevice p rest u ds vs\<rparr>])))
       \<and> (\<forall>s acts vs x.
             SetUserDevices u vs \<in> set (new_events s (fst (run acts (s, [])))) \<and> x \<in> set vs
             \<longrightarrow> truthy (keys x (key_name DeviceKeyAlgorithm_Ed25119 (device_id x)))
                 \<and> truthy (keys x (key_name DeviceKeyAlgorithm_Curve25519 (device_id x))))"
proof -
  let ?V = "map snd (validated_claims c (cryptoStore t) u devs)"
  have c8: "\<forall>s acts vs x.
             SetUserDevices u vs \<in> set (new_events s (fst (run acts (s, [])))) \<and> x \<in> set vs
             \<longrightarrow> truthy (keys x (key_name DeviceKeyAlgorithm_Ed25119 (device_id x)))
                 \<and> truthy (keys x (key_name DeviceKeyAlgorithm_Curve25519 (device_id x)))"
    using written_devices_sound(2,3) by blast
  have verdict: "check_device c store u d dev = Inr (Ignored (MissingKeys u d))
            \<or> check_device c store u d dev
                 = Inr (Ignored (ServerLying u d (user_id dev) (device_id dev)))" for store
    using assms(6) by (auto simp: check_device_def Let_def)
  then have c1: "\<forall>store. check_device c store u d dev = Inr (Ignored (MissingKeys u d))
            \<or> check_device c store u d dev
                 = Inr (Ignored (ServerLying u d (user_id dev) (device_id dev)))"
    by blast
  have c7: "\<forall>s calls i p rest ds vs.
             i < length calls \<and> pos (calls ! i) = AtDevice p rest u ((d, dev) # ds) vs
             \<longrightarrow> (\<exists>w. perform (Resume i) (s, calls)
                        = (s\<lparr>trace := trace s @ [Warn w]\<rparr>,
                           calls[i := (calls ! i)\<lparr>pos := AtDevice p rest u ds vs\<rparr>]))"
  proof (intro allI impI)
    fix s :: tracker and calls :: "call list" and i p rest ds vs
    assume h: "i < length calls \<and> pos (calls ! i) = AtDevice p rest u ((d, dev) # ds) vs"
    have "\<exists>w. check_device (call_client (calls ! i)) (cryptoStore s) u d dev = Inr (Ignored w)"
      using assms(6) by (simp add: check_device_def Let_def)
    then obtain w
      where "check_device (call_client (calls ! i)) (cryptoStore s) u d dev = Inr (Ignored w)"
      by blast
    with h have "perform (Resume i) (s, calls)
                        = (s\<lparr>trace := trace s @ [Warn w]\<rparr>,
                           calls[i := (calls ! i)\<lparr>pos := AtDevice p rest u ds vs\<rparr>])"
      by simp
    then show "\<exists>w. perform (Resume i) (s, calls)
                        = (s\<lparr>trace := trace s @ [Warn w]\<rparr>,
                           calls[i := (calls ! i)\<lparr>pos := AtDevice p rest u ds vs\<rparr>])"
      by blast
  qed
  have "check_device c store u d dev \<noteq> Inr Validated" for store
    using verdict [of store] by auto
  then have c2: "\<forall>store. (d, dev) \<notin> set (validated_claims c store u devs)"
    by (simp add: in_validated_claims)
  have c5: "\<forall>x \<in> set ?V.
             truthy (keys x (key_name DeviceKeyAlgorithm_Ed25119 (device_id x)))
           \<and> truthy (keys x (key_name DeviceKeyAlgorithm_Curve25519 (device_id x)))"
    using validated_claims_sound(3,4) by blast
  from update_commits [OF assms(1-4)]
  consider (kept) "cryptoStore t' u = cryptoStore t u"
          "\<forall>vs. SetUserDevices u vs \<notin> set (new_events t t')" "out \<noteq> Returned"
    | (written) "cryptoStore t' u = ?V"
          "\<forall>vs. SetUserDevices u vs \<in> set (new_events t t') \<longrightarrow> vs = ?V"
          "SetUserDevices u ?V \<in> set (new_events t t')"
    by fastforce
  then have rest: "(cryptoStore t' u = cryptoStore t u \<or> cryptoStore t' u = ?V)
       \<and> (\<forall>vs. SetUserDevices u vs \<in> set (new_events t t') \<longrightarrow> vs = ?V)
       \<and> (out = Returned
            \<longrightarrow> cryptoStore t' u = ?V \<and> SetUserDevices u ?V \<in> set (new_events t t'))"
  proof cases
    case kept
    then show ?thesis by blast
  next
    case written
    then show ?thesis by blast
  qed
  then have r3: "cryptoStore t' u = cryptoStore t u \<or> cryptoStore t' u = ?V"
    and r4: "\<forall>vs. SetUserDevices u vs \<in> set (new_events t t') \<longrightarrow> vs = ?V"
    and r6: "out = Returned
            \<longrightarrow> cryptoStore t' u = ?V \<and> SetUserDevices u ?V \<in> set (new_events t t')"
    by (rule conjunct1, rule conjunct2 [THEN conjunct1], rule conjunct2 [THEN conjunct2])
  from c1 c2 r3 r4 c5 r6 c7 c8 show ?thesis by (intro conjI)
qed

text \<open>
  A pass that does not complete: Alice's D1 has no Curve25519 key and her D2 is sound;
  the verifier throws on Bob's device. Alice's list is committed with D2 alone.
\<close>

theorem missing_key_excluded_witness:
  "snd (updateUsersDeviceLists
          (brittle_directory [(alice, [(''D1'', d1_no_curve), (''D2'', d2_e3)]),
                              (bob, [(''B1'', b1)])] ''B1'')
          (new_tracker (\<lambda>_. [])) [alice, bob]) = Suspended
   \<and> keys d1_no_curve (key_name DeviceKeyAlgorithm_Curve25519 ''D1'') = None
   \<and> SetUserDevices alice [d2_e3]
        \<in> set (new_events (new_tracker (\<lambda>_. []))
             (fst (updateUsersDeviceLists
                (brittle_directory [(alice, [(''D1'', d1_no_curve), (''D2'', d2_e3)]),
                                    (bob, [(''B1'', b1)])] ''B1'')
                (new_tracker (\<lambda>_. [])) [alice, bob])))
   \<and> map snd (validated_claims
          (brittle_directory [(alice, [(''D1'', d1_no_curve), (''D2'', d2_e3)]),
                              (bob, [(''B1'', b1)])] ''B1'')
          (\<lambda>_. []) alice [(''D1'', d1_no_curve), (''D2'', d2_e3)]) = [d2_e3]"
proof -
  let ?devs = "[(''D1'', d1_no_curve), (''D2'', d2_e3)]"
  let ?resp = "[(alice, ?devs), (bob, [(''B1'', b1)])]"
  let ?c = "brittle_directory ?resp ''B1''"
  let ?t = "new_tracker (\<lambda>_. [])"
  let ?t' = "fst (updateUsersDeviceLists ?c ?t [alice, bob])"
  have out: "snd (updateUsersDeviceLists ?c ?t [alice, bob]) = Suspended"
    by (simp add: model_defs world_defs brittle_directory_def)
  then have run: "updateUsersDeviceLists ?c ?t [alice, bob] = (?t', Suspended)"
    by (simp add: prod_eq_iff)
  have fetch: "getUserDevices ?c [alice, bob] = Inr ?resp"
    by (simp add: brittle_directory_def)
  have dist: "distinct (map fst ?resp)"
    by (simp add: alice_def bob_def)
  have user: "(alice, ?devs) \<in> set ?resp"
    by simp
  have dev: "(''D1'', d1_no_curve) \<in> set ?devs"
    by simp
  have nokey: "keys d1_no_curve (key_name DeviceKeyAlgorithm_Curve25519 ''D1'') = None"
    by (simp add: model_defs world_defs)
  then have "\<not> truthy (keys d1_no_curve (key_name DeviceKeyAlgorithm_Curve25519 ''D1''))"
    by (simp add: truthy_def)
  then have lacks: "\<not> truthy (keys d1_no_curve (key_name DeviceKeyAlgorithm_Ed25119 ''D1''))
         \<or> \<not> truthy (keys d1_no_curve (key_name DeviceKeyAlgorithm_Curve25519 ''D1''))"
    by (rule disjI2)
  have ev: "SetUserDevices alice [d2_e3] \<in> set (new_events ?t ?t')"
    by (simp add: new_events_def model_defs world_defs brittle_directory_def)
  have st: "cryptoStore ?t = (\<lambda>_. [])"
    by (simp add: new_tracker_def)
  note T = missing_key_excluded [OF run fetch dist user dev lacks]
  from T have "\<forall>vs. SetUserDevices alice vs \<in> set (new_events ?t ?t')
            \<longrightarrow> vs = map snd (validated_claims ?c (cryptoStore ?t) alice ?devs)"
    by (rule conjunct2 [THEN conjunct2, THEN conjunct2, THEN conjunct1])
  with ev have "[d2_e3] = map snd (validated_claims ?c (cryptoStore ?t) alice ?devs)"
    by blast
  then have "map snd (validated_claims ?c (\<lambda>_. []) alice ?devs) = [d2_e3]"
    by (simp only: st)
  with out nokey ev show ?thesis by (intro conjI)
qed




text \<open>
  C9. The contract of \<^verbatim>\<open>flagUsersOutdated\<close>, among any other calls and for every
  order of their steps. If the store rejects the write, the call throws the store's
  error; nothing is flagged and no update is called. If the store accepts it, every
  given id is flagged when the call reaches its await, the write is the first effect of
  the call, and from then on the call is either at that await or has returned: it never
  throws and never waits for anything else, whatever becomes of an update it has
  started. Its next step from the await: without \<^verbatim>\<open>resync\<close> it returns and nothing
  else changes, so no pass is started; with \<^verbatim>\<open>resync\<close> it calls
  \<^verbatim>\<open>updateUsersDeviceLists\<close> for the same ids and returns at once, leaving that call
  in flight. The call so started has called the fetch and registered its promise when no
  promise was registered under these ids; otherwise it waits for those first.
\<close>

theorem flagUsersOutdated_contract:
  assumes "perform (Flag c store_flag us resync) (t, calls) = (t1, calls1)"
    and "run acts (t1, calls1) = (t2, calls2)"
  shows "(\<forall>e. store_flag us = Inl e
            \<longrightarrow> t1 = t \<and> pos (calls2 ! length calls) = Ended (Thrown e))
       \<and> (\<forall>v. store_flag us = Inr v
            \<longrightarrow> set us \<subseteq> outdated t1
              \<and> (\<exists>rest. new_events t t2 = FlaggedOutdated us # rest)
              \<and> (pos (calls2 ! length calls) = AtFlagged resync
                   \<or> pos (calls2 ! length calls) = Ended Returned)
              \<and> (pos (calls2 ! length calls) = AtFlagged resync \<and> \<not> resync
                   \<longrightarrow> perform (Resume (length calls)) (t2, calls2)
                         = (t2, calls2[length calls :=
                              (calls2 ! length calls)\<lparr>pos := Ended Returned\<rparr>]))
              \<and> (pos (calls2 ! length calls) = AtFlagged resync \<and> resync
                   \<longrightarrow> (\<exists>t3 k. call_updateUsersDeviceLists c t2 us = (t3, k)
                          \<and> perform (Resume (length calls)) (t2, calls2)
                              = (t3, calls2[length calls :=
                                   (calls2 ! length calls)\<lparr>pos := Ended Returned\<rparr>] @ [k])
                          \<and> ((existingPromises t2 us = [] \<and> pos k = AtFetch (next_promise t2)
                                \<and> new_events t2 t3
                                     = FetchIssued us
                                         # map (\<lambda>u. Registered u (next_promise t2)) us)
                               \<or> (existingPromises t2 us \<noteq> []
                                   \<and> pos k = AtWait (existingPromises t2 us) \<and> t3 = t2)))))"
proof (intro conjI allI impI)
  fix e assume fail: "store_flag us = Inl e"
  with assms(1) have t1: "t1 = t"
    and calls1: "calls1 = calls @ [\<lparr>call_client = c, call_userIds = us, pos = Ended (Thrown e)\<rparr>]"
    by (auto simp: call_flagUsersOutdated_def)
  from calls1 have "length calls < length calls1" "pos (calls1 ! length calls) = Ended (Thrown e)"
    by simp_all
  from run_ended [OF assms(2) this]
  show "pos (calls2 ! length calls) = Ended (Thrown e)" by simp
  show "t1 = t" by (rule t1)
next
  fix v assume ok: "store_flag us = Inr v"
  with assms(1)
  have t1: "t1 = t\<lparr>outdated := outdated t \<union> set us, trace := trace t @ [FlaggedOutdated us]\<rparr>"
    and calls1: "calls1 = calls @ [\<lparr>call_client = c, call_userIds = us, pos = AtFlagged resync\<rparr>]"
    by (auto simp: call_flagUsersOutdated_def)
  from calls1 have len: "length calls < length calls1"
    and at: "pos (calls1 ! length calls) \<in> {AtFlagged resync, Ended Returned}"
    and who: "call_client (calls1 ! length calls) = c" "call_userIds (calls1 ! length calls) = us"
    by simp_all
  from run_pos_closed [OF assms(2) len at flagged_closed] who
  have len2: "length calls < length calls2"
    and at2: "pos (calls2 ! length calls) \<in> {AtFlagged resync, Ended Returned}"
    and who2: "call_client (calls2 ! length calls) = c" "call_userIds (calls2 ! length calls) = us"
    by simp_all
  show "set us \<subseteq> outdated t1" using t1 by simp
  have "new_events t t1 = [FlaggedOutdated us]" using t1 by (intro new_events_eq) simp
  moreover have "new_events t t2 = new_events t t1 @ new_events t1 t2"
    using perform_trace [OF assms(1)] run_trace [OF assms(2)] by (rule new_events_trans)
  ultimately show "\<exists>rest. new_events t t2 = FlaggedOutdated us # rest" by simp
  show "pos (calls2 ! length calls) = AtFlagged resync \<or> pos (calls2 ! length calls) = Ended Returned"
    using at2 by simp
  {
    assume "pos (calls2 ! length calls) = AtFlagged resync \<and> \<not> resync"
    with len2 who2
    show "perform (Resume (length calls)) (t2, calls2)
            = (t2, calls2[length calls := (calls2 ! length calls)\<lparr>pos := Ended Returned\<rparr>])"
      by simp
  }
  {
    assume h: "pos (calls2 ! length calls) = AtFlagged resync \<and> resync"
    obtain t3 k where start: "call_updateUsersDeviceLists c t2 us = (t3, k)"
      by (cases "call_updateUsersDeviceLists c t2 us")
    with h len2 who2
    have "perform (Resume (length calls)) (t2, calls2)
            = (t3, calls2[length calls := (calls2 ! length calls)\<lparr>pos := Ended Returned\<rparr>] @ [k])"
      by simp
    moreover from call_update_waits_or_fetches [OF start]
    have "(existingPromises t2 us = [] \<and> pos k = AtFetch (next_promise t2)
             \<and> new_events t2 t3 = FetchIssued us # map (\<lambda>u. Registered u (next_promise t2)) us)
          \<or> (existingPromises t2 us \<noteq> [] \<and> pos k = AtWait (existingPromises t2 us) \<and> t3 = t2)"
      by (rule conjunct2 [THEN conjunct2])
    ultimately
    have "call_updateUsersDeviceLists c t2 us = (t3, k)
            \<and> perform (Resume (length calls)) (t2, calls2)
                = (t3, calls2[length calls := (calls2 ! length calls)\<lparr>pos := Ended Returned\<rparr>] @ [k])
            \<and> ((existingPromises t2 us = [] \<and> pos k = AtFetch (next_promise t2)
                  \<and> new_events t2 t3 = FetchIssued us # map (\<lambda>u. Registered u (next_promise t2)) us)
               \<or> (existingPromises t2 us \<noteq> [] \<and> pos k = AtWait (existingPromises t2 us) \<and> t3 = t2))"
      using start by (intro conjI)
    then
    show "\<exists>t3 k. call_updateUsersDeviceLists c t2 us = (t3, k)
            \<and> perform (Resume (length calls)) (t2, calls2)
                = (t3, calls2[length calls := (calls2 ! length calls)\<lparr>pos := Ended Returned\<rparr>] @ [k])
            \<and> ((existingPromises t2 us = [] \<and> pos k = AtFetch (next_promise t2)
                  \<and> new_events t2 t3 = FetchIssued us # map (\<lambda>u. Registered u (next_promise t2)) us)
               \<or> (existingPromises t2 us \<noteq> [] \<and> pos k = AtWait (existingPromises t2 us) \<and> t3 = t2))"
      by (intro exI)
  }
qed

text \<open>
  With the directory unreachable the update that was started never completes, and the
  caller of the flag operation has returned, the flag written. With a store that
  rejects the write the call throws and the tracker is as before.
\<close>

theorem flagUsersOutdated_contract_witness:
  "alice \<in> outdated (fst (perform (Flag offline (\<lambda>_. Inr ()) [alice] True)
                            (new_tracker (\<lambda>_. []), [])))
   \<and> (\<exists>rest. new_events (new_tracker (\<lambda>_. []))
          (fst (run [Resume 0, Resume 1]
             (perform (Flag offline (\<lambda>_. Inr ()) [alice] True) (new_tracker (\<lambda>_. []), []))))
        = FlaggedOutdated [alice] # rest)
   \<and> pos (snd (run [Resume 0, Resume 1]
        (perform (Flag offline (\<lambda>_. Inr ()) [alice] True) (new_tracker (\<lambda>_. []), []))) ! 0)
       = Ended Returned
   \<and> pos (snd (run [Resume 0, Resume 1]
        (perform (Flag offline (\<lambda>_. Inr ()) [alice] True) (new_tracker (\<lambda>_. []), []))) ! 1)
       = Ended Suspended
   \<and> perform (Flag offline (\<lambda>_. Inl (Error ''disk full'')) [alice] True)
        (new_tracker (\<lambda>_. []), [])
       = (new_tracker (\<lambda>_. []),
          [\<lparr>call_client = offline, call_userIds = [alice],
            pos = Ended (Thrown (Error ''disk full''))\<rparr>])"
proof -
  let ?t0 = "new_tracker (\<lambda>_. [])"
  let ?ok = "\<lambda>_ :: string list. Inr () :: error + unit"
  let ?cfg1 = "perform (Flag offline ?ok [alice] True) (?t0, [])"
  let ?cfg2 = "run [Resume 0, Resume 1] ?cfg1"
  have p: "perform (Flag offline ?ok [alice] True) (?t0, []) = (fst ?cfg1, snd ?cfg1)"
    by simp
  have r: "run [Resume 0, Resume 1] (fst ?cfg1, snd ?cfg1) = (fst ?cfg2, snd ?cfg2)"
    by simp
  note T = flagUsersOutdated_contract [OF p r]
  from T have "\<forall>v. ?ok [alice] = Inr v
      \<longrightarrow> set [alice] \<subseteq> outdated (fst ?cfg1)
          \<and> (\<exists>rest. new_events ?t0 (fst ?cfg2) = FlaggedOutdated [alice] # rest)"
    by blast
  then have "set [alice] \<subseteq> outdated (fst ?cfg1)
          \<and> (\<exists>rest. new_events ?t0 (fst ?cfg2) = FlaggedOutdated [alice] # rest)"
    by simp
  then have flagged: "alice \<in> outdated (fst ?cfg1)"
    and first: "\<exists>rest. new_events ?t0 (fst ?cfg2) = FlaggedOutdated [alice] # rest"
    by simp_all
  have returned: "pos (snd ?cfg2 ! 0) = Ended Returned"
    by (simp add: fine_defs model_defs world_defs)
  have lost: "pos (snd ?cfg2 ! 1) = Ended Suspended"
    by (simp add: fine_defs model_defs world_defs)
  have failed: "perform (Flag offline (\<lambda>_. Inl (Error ''disk full'')) [alice] True) (?t0, [])
       = (?t0, [\<lparr>call_client = offline, call_userIds = [alice],
                  pos = Ended (Thrown (Error ''disk full''))\<rparr>])"
    by (simp add: fine_defs)
  from flagged first returned lost failed show ?thesis by (intro conjI)
qed

text \<open>
  C10. Frame property: a pass writes a stored device list only for users that are keys
  of the directory response. For a user that is not a key of the response, requested or
  not, the stored list after the call is the list before it, and the call makes no
  \<^verbatim>\<open>setUserDevices\<close> for that user; this holds for a pass that completes and for
  one that does not.
\<close>

theorem absent_user_keeps_devices:
  assumes "updateUsersDeviceLists c t userIds = (t', out)"
    and "getUserDevices c userIds = Inr resp"
    and "u \<notin> fst ` set resp"
  shows "cryptoStore t' u = cryptoStore t u
       \<and> (\<exists>new. trace t' = trace t @ new \<and> (\<forall>vs. SetUserDevices u vs \<notin> set new))"
proof -
  from update_effects [OF assms(1)] show ?thesis
  proof
    assume "t' = t \<and> out \<noteq> Returned \<and> await_all t (existingPromises t userIds) \<noteq> Returned"
    then have "t' = t" by blast
    then have "trace t' = trace t @ []" by simp
    with \<open>t' = t\<close> show ?thesis by fastforce
  next
    assume "await_all t (existingPromises t userIds) = Returned \<and> run_pass c t userIds = (t', out)"
    then have rp: "run_pass c t userIds = (t', out)" by blast
    from rp obtain r :: "error + unit" and log
      where eff: "case getUserDevices c userIds of
           Inl e \<Rightarrow> r = Inl e \<and> log = [] \<and> cryptoStore t' = cryptoStore t
         | Inr resp \<Rightarrow> process_users c (cryptoStore t) resp [] = (r, cryptoStore t', log)"
        and tr: "trace t' = trace t @ FetchIssued userIds
              # map (\<lambda>u. Registered u (next_promise t)) userIds
              @ log @ [case r of Inl e \<Rightarrow> UnhandledRejection e | Inr u \<Rightarrow> Resolved (next_promise t)]"
      by (rule run_pass_effects) blast
    from eff assms(2)
    have pu: "process_users c (cryptoStore t) resp [] = (r, cryptoStore t', log)"
      by simp
    have same: "cryptoStore t' u = cryptoStore t u"
      using process_users_frame [OF pu assms(3)] .
    have nowrite: "SetUserDevices u vs \<notin> set log" for vs
      using process_users_writes [OF pu, of u vs] assms(3) by auto
    let ?new = "FetchIssued userIds # map (\<lambda>u. Registered u (next_promise t)) userIds
              @ log @ [case r of Inl e \<Rightarrow> UnhandledRejection e | Inr u \<Rightarrow> Resolved (next_promise t)]"
    have "\<forall>vs. SetUserDevices u vs \<notin> set ?new"
      using nowrite by (auto split: sum.splits)
    with tr same show ?thesis by blast
  qed
qed

theorem absent_user_keeps_devices_witness:
  "bob \<in> set [alice, bob]
   \<and> bob \<notin> fst ` set [(alice, [(''D2'', d2_e3)])]
   \<and> snd (updateUsersDeviceLists (directory [(alice, [(''D2'', d2_e3)])]) trusting_both [alice, bob])
       = Returned
   \<and> cryptoStore (fst (updateUsersDeviceLists (directory [(alice, [(''D2'', d2_e3)])])
        trusting_both [alice, bob])) bob = [b1]
   \<and> map device_id (cryptoStore (fst (updateUsersDeviceLists (directory [(alice, [(''D2'', d2_e3)])])
        trusting_both [alice, bob])) alice) = [''D2'']"
proof -
  let ?c = "directory [(alice, [(''D2'', d2_e3)])]"
  let ?t' = "fst (updateUsersDeviceLists ?c trusting_both [alice, bob])"
  have ret: "snd (updateUsersDeviceLists ?c trusting_both [alice, bob]) = Returned"
    by (simp add: model_defs world_defs)
  then have run: "updateUsersDeviceLists ?c trusting_both [alice, bob] = (?t', Returned)"
    by (simp add: prod_eq_iff)
  have fetch: "getUserDevices ?c [alice, bob] = Inr [(alice, [(''D2'', d2_e3)])]"
    by (simp add: directory_def)
  have req: "bob \<in> set [alice, bob]" by simp
  have absent: "bob \<notin> fst ` set [(alice, [(''D2'', d2_e3)])]"
    by (simp add: alice_def bob_def)
  have before: "cryptoStore trusting_both bob = [b1]"
    by (simp add: trusting_both_def new_tracker_def alice_def bob_def)
  have "cryptoStore ?t' bob = cryptoStore trusting_both bob"
    using absent_user_keeps_devices [OF run fetch absent] by blast
  with before have kept: "cryptoStore ?t' bob = [b1]" by (simp only:)
  have replaced: "map device_id (cryptoStore ?t' alice) = [''D2'']"
    by (simp add: model_defs world_defs)
  from req absent ret kept replaced show ?thesis by (intro conjI)
qed

end
